theory Spec2Isabelle
  imports Complex_Main "HOL-Library.Word"
begin

unbundle bit_operations_syntax

section \<open>The alias table of AliasTable.hpp\<close>

text \<open>
  The header has two function templates, \<^verbatim>\<open>BuildAliasTable\<close> and
  \<^verbatim>\<open>SampleAliasTable\<close>, over a value type \<^verbatim>\<open>T\<close> and an index type
  \<^verbatim>\<open>TIndex\<close>.

  \<^item> \<^verbatim>\<open>TIndex\<close> is taken at its default, \<^verbatim>\<open>unsigned int\<close>: a 32-bit word.
    \<^verbatim>\<open>~TIndex(0)\<close> is \<open>NOT 0\<close>, the word \<open>0xFFFFFFFF\<close>.
  \<^item> \<^verbatim>\<open>T\<close> is a type variable of an ordered field with a floor function: the
    arithmetic of the model is exact (the template instantiated at a type of exact
    numbers). The rounding of \<^verbatim>\<open>float\<close>, the default of \<^verbatim>\<open>T\<close>, is in the functions
    named \<open>_rounded\<close>, which take the rounding as a parameter.
  \<^item> The arrays behind the pointers are lists; the two output buffers are parameters,
    written with \<open>xs[i := v]\<close>, and returned.
\<close>

type_synonym TIndex = "32 word"

datatype error =
  OutOfBounds           \<comment> \<open>an array is read or written at or beyond its size\<close>
| IntConversionOverflow \<comment> \<open>\<^verbatim>\<open>static_cast<int>\<close> of a value whose truncation is no \<^verbatim>\<open>int\<close>\<close>

subsection \<open>The worklists: \<^verbatim>\<open>Heap<TIndex, Compare>\<close>\<close>

text \<open>
  \<^verbatim>\<open>Heap\<close> is \<^verbatim>\<open>std::priority_queue\<close> over a \<^verbatim>\<open>std::vector\<close>. Its comparator
  \<open>cmp\<close> plays the role of "less than", \<^verbatim>\<open>top()\<close> is the first element of the
  underlying vector and no element is greater than it. The model keeps the contents in a
  list whose head is the top:
  \<^item> \<open>heap_push\<close> compares the new element with the top and puts the greater one in front;
  \<^item> \<open>heap_pop\<close> removes the head and brings a greatest element of the rest to the front
    (\<open>heap_select\<close>), comparing with the comparator as it is at the time of the call.
  The library leaves open which of several equal elements comes to the top; the model
  takes the first one in the list. \<^verbatim>\<open>top()\<close> of an empty heap is undefined in the
  library and \<open>heap_top []\<close> is left unspecified: the function asks for the top only
  after \<^verbatim>\<open>empty()\<close> has returned false.
\<close>

fun heap_push :: "('i \<Rightarrow> 'i \<Rightarrow> bool) \<Rightarrow> 'i \<Rightarrow> 'i list \<Rightarrow> 'i list" where
  "heap_push cmp x [] = [x]"
| "heap_push cmp x (t # ts) = (if cmp t x then x # t # ts else t # x # ts)"

fun heap_top :: "'i list \<Rightarrow> 'i" where
  "heap_top (t # ts) = t"

fun heap_select :: "('i \<Rightarrow> 'i \<Rightarrow> bool) \<Rightarrow> 'i list \<Rightarrow> 'i list" where
  "heap_select cmp [] = []"
| "heap_select cmp (y # ys) =
     (let m = fold (\<lambda>x m. if cmp m x then x else m) ys y in m # remove1 m (y # ys))"

fun heap_pop :: "('i \<Rightarrow> 'i \<Rightarrow> bool) \<Rightarrow> 'i list \<Rightarrow> 'i list" where
  "heap_pop cmp [] = []"
| "heap_pop cmp (t # ts) = heap_select cmp ts"

subsection \<open>\<^verbatim>\<open>SampleAliasTable\<close>\<close>

text \<open>
  \<^verbatim>\<open>static_cast<int>(nx)\<close> truncates towards zero; the conversion is undefined when
  the truncated value is not a 32-bit \<^verbatim>\<open>int\<close>, which the model returns as \<open>None\<close>.
\<close>

definition static_cast_int :: "'a::floor_ceiling \<Rightarrow> int option" where
  "static_cast_int v =
     (let t = (if 0 \<le> v then \<lfloor>v\<rfloor> else \<lceil>v\<rceil>)
      in if - (2 ^ 31) \<le> t \<and> t < 2 ^ 31 then Some t else None)"

text \<open>
  Lines 76 and 77, the slot \<open>i\<close>. In \<^verbatim>\<open>static_cast<int>(nx) < n\<close> and in the
  conditional expression the \<^verbatim>\<open>int\<close> is converted to \<^verbatim>\<open>unsigned int\<close>
  (\<open>word_of_int\<close>); \<open>n - 1\<close> is a subtraction of words.
\<close>

definition SampleAliasTable_slot :: "'a::floor_ceiling \<Rightarrow> TIndex \<Rightarrow> error + TIndex" where
  "SampleAliasTable_slot urand01 n =
     (let x = urand01;
          nx = of_nat (unat n) * x
      in case static_cast_int nx of
           None \<Rightarrow> Inl IntConversionOverflow
         | Some c \<Rightarrow> Inr (if (word_of_int c :: TIndex) < n then word_of_int c else n - 1))"

text \<open>The whole function; a read beyond the size of a table is the error \<open>OutOfBounds\<close>.\<close>

definition SampleAliasTable ::
  "'a::floor_ceiling \<Rightarrow> 'a list \<Rightarrow> TIndex list \<Rightarrow> TIndex \<Rightarrow> error + TIndex" where
  "SampleAliasTable urand01 tableProbs tableAliases n =
     (let x = urand01;
          nx = of_nat (unat n) * x
      in case SampleAliasTable_slot urand01 n of
           Inl e \<Rightarrow> Inl e
         | Inr i \<Rightarrow>
             let y = nx - of_nat (unat i)
             in if length tableProbs \<le> unat i then Inl OutOfBounds
                else
                  let Ui = tableProbs ! unat i
                  in if y < Ui then Inr i
                     else if length tableAliases \<le> unat i then Inl OutOfBounds
                     else Inr (tableAliases ! unat i))"

text \<open>
  The variant of the comment at lines 90 to 93 (the square histogram of Marsaglia et al.):
  \<open>y\<close> is not computed, and the test is \<^verbatim>\<open>x < Vi\<close> with
  \<^verbatim>\<open>Vi = (Ui + i) / n\<close>. Like the function above it is written with exact arithmetic;
  the forms of both with rounded arithmetic follow below.
\<close>

definition SampleAliasTable_square_histogram ::
  "'a::floor_ceiling \<Rightarrow> 'a list \<Rightarrow> TIndex list \<Rightarrow> TIndex \<Rightarrow> error + TIndex" where
  "SampleAliasTable_square_histogram urand01 tableProbs tableAliases n =
     (let x = urand01
      in case SampleAliasTable_slot urand01 n of
           Inl e \<Rightarrow> Inl e
         | Inr i \<Rightarrow>
             if length tableProbs \<le> unat i then Inl OutOfBounds
             else
               let Ui = tableProbs ! unat i;
                   Vi = (Ui + of_nat (unat i)) / of_nat (unat n)
               in if x < Vi then Inr i
                  else if length tableAliases \<le> unat i then Inl OutOfBounds
                  else Inr (tableAliases ! unat i))"

subsection \<open>The sampler at \<^verbatim>\<open>T = float\<close>\<close>

text \<open>
  The default of \<^verbatim>\<open>T\<close> is \<^verbatim>\<open>float\<close>, IEEE 754 binary32: every arithmetic result is
  the exact result rounded to the nearest number with a significand of 24 bits, a tie
  going to the even significand. \<open>round_significand\<close> scales by powers of 2 until the
  magnitude is in \<open>[2^23, 2^24)\<close>, rounds to an integer and scales back; its first argument
  bounds the number of scalings, and the 512 of \<open>binary32\<close> is beyond the exponents of
  binary32. The exponent is not bounded as in binary32: overflow to infinity and
  subnormal numbers are not modelled, and neither are NaN and the infinities.
\<close>

definition round_ties_even :: "'a::floor_ceiling \<Rightarrow> int" where
  "round_ties_even x =
     (let f = \<lfloor>x\<rfloor>;
          d = x - of_int f
      in if d < 1 / 2 then f else if 1 / 2 < d then f + 1 else if even f then f else f + 1)"

fun round_significand :: "nat \<Rightarrow> 'a::floor_ceiling \<Rightarrow> 'a" where
  "round_significand 0 x = 0"
| "round_significand (Suc k) x =
     (if x = 0 then 0
      else if 2 ^ 24 \<le> \<bar>x\<bar> then 2 * round_significand k (x / 2)
      else if \<bar>x\<bar> < 2 ^ 23 then round_significand k (2 * x) / 2
      else of_int (round_ties_even x))"

definition binary32 :: "'a::floor_ceiling \<Rightarrow> 'a" where
  "binary32 x = round_significand 512 x"

text \<open>
  The two samplers with every arithmetic result of type \<^verbatim>\<open>T\<close> passed through a rounding
  function \<open>rnd\<close>: the conversions of \<open>n\<close> and \<open>i\<close> to \<^verbatim>\<open>T\<close>, the product \<open>n * x\<close>, the
  difference \<open>nx - i\<close>, the sum \<open>Ui + i\<close> and the quotient by \<open>n\<close>. With the identity for
  \<open>rnd\<close> they are the functions above; with \<open>binary32\<close> they are the function and its
  variant at \<^verbatim>\<open>T = float\<close>.
\<close>

definition SampleAliasTable_slot_rounded ::
  "('a \<Rightarrow> 'a) \<Rightarrow> 'a::floor_ceiling \<Rightarrow> TIndex \<Rightarrow> error + TIndex" where
  "SampleAliasTable_slot_rounded rnd urand01 n =
     (let x = urand01;
          nx = rnd (rnd (of_nat (unat n)) * x)
      in case static_cast_int nx of
           None \<Rightarrow> Inl IntConversionOverflow
         | Some c \<Rightarrow> Inr (if (word_of_int c :: TIndex) < n then word_of_int c else n - 1))"

definition SampleAliasTable_rounded ::
  "('a \<Rightarrow> 'a) \<Rightarrow> 'a::floor_ceiling \<Rightarrow> 'a list \<Rightarrow> TIndex list \<Rightarrow> TIndex \<Rightarrow> error + TIndex" where
  "SampleAliasTable_rounded rnd urand01 tableProbs tableAliases n =
     (let x = urand01;
          nx = rnd (rnd (of_nat (unat n)) * x)
      in case SampleAliasTable_slot_rounded rnd urand01 n of
           Inl e \<Rightarrow> Inl e
         | Inr i \<Rightarrow>
             let y = rnd (nx - rnd (of_nat (unat i)))
             in if length tableProbs \<le> unat i then Inl OutOfBounds
                else
                  let Ui = tableProbs ! unat i
                  in if y < Ui then Inr i
                     else if length tableAliases \<le> unat i then Inl OutOfBounds
                     else Inr (tableAliases ! unat i))"

definition SampleAliasTable_square_histogram_rounded ::
  "('a \<Rightarrow> 'a) \<Rightarrow> 'a::floor_ceiling \<Rightarrow> 'a list \<Rightarrow> TIndex list \<Rightarrow> TIndex \<Rightarrow> error + TIndex" where
  "SampleAliasTable_square_histogram_rounded rnd urand01 tableProbs tableAliases n =
     (let x = urand01
      in case SampleAliasTable_slot_rounded rnd urand01 n of
           Inl e \<Rightarrow> Inl e
         | Inr i \<Rightarrow>
             if length tableProbs \<le> unat i then Inl OutOfBounds
             else
               let Ui = tableProbs ! unat i;
                   Vi = rnd (rnd (Ui + rnd (of_nat (unat i))) / rnd (of_nat (unat n)))
               in if x < Vi then Inr i
                  else if length tableAliases \<le> unat i then Inl OutOfBounds
                  else Inr (tableAliases ! unat i))"

subsection \<open>\<^verbatim>\<open>BuildAliasTable\<close>\<close>

text \<open>
  The two lambdas read \<^verbatim>\<open>tableProbs\<close> by reference, so they are functions of the
  current contents of that array.
\<close>

definition WorklistEntryLess :: "'a::linorder list \<Rightarrow> TIndex \<Rightarrow> TIndex \<Rightarrow> bool" where
  "WorklistEntryLess tableProbs lhs rhs \<longleftrightarrow> tableProbs ! unat lhs < tableProbs ! unat rhs"

definition WorklistEntryGreater :: "'a::linorder list \<Rightarrow> TIndex \<Rightarrow> TIndex \<Rightarrow> bool" where
  "WorklistEntryGreater tableProbs lhs rhs \<longleftrightarrow> tableProbs ! unat lhs > tableProbs ! unat rhs"

text \<open>
  The variables of the function body: the two output arrays, the min-heap \<open>small\<close>
  (comparator \<open>WorklistEntryGreater\<close>) and the max-heap \<open>large\<close> (comparator
  \<open>WorklistEntryLess\<close>).
\<close>

record 'a build_state =
  tableProbs :: "'a list"
  tableAliases :: "TIndex list"
  small :: "TIndex list"
  large :: "TIndex list"

text \<open>
  The body of the first loop (lines 33 to 37), at index \<open>i\<close>. An access beyond the size
  of one of the three arrays is the error \<open>OutOfBounds\<close>.
\<close>

definition init_body ::
  "'a::linordered_field list \<Rightarrow> TIndex \<Rightarrow> TIndex \<Rightarrow> 'a build_state \<Rightarrow> error + 'a build_state" where
  "init_body probabilities n i st =
     (if length (tableAliases st) \<le> unat i \<or> length probabilities \<le> unat i
         \<or> length (tableProbs st) \<le> unat i
      then Inl OutOfBounds
      else
        let tA = (tableAliases st)[unat i := NOT 0];
            tP = (tableProbs st)[unat i := probabilities ! unat i * of_nat (unat n)];
            st1 = st\<lparr>tableProbs := tP, tableAliases := tA\<rparr>
        in if tP ! unat i < 1
           then Inr (st1\<lparr>small := heap_push (WorklistEntryGreater tP) i (small st1)\<rparr>)
           else Inr (st1\<lparr>large := heap_push (WorklistEntryLess tP) i (large st1)\<rparr>))"

lemma unat_Suc_less: "(i :: TIndex) < n \<Longrightarrow> unat (i + 1) = Suc (unat i)"
proof -
  assume "i < n"
  then have "unat i < unat n"
    by (simp add: word_less_nat_alt)
  moreover have "unat n < 2 ^ 32"
    using unsigned_less [of n] by simp
  ultimately show ?thesis
    by (simp add: unat_word_ariths)
qed

text \<open>\<^verbatim>\<open>for(TIndex i = 0; i < n; ++i)\<close>, with \<open>++i\<close> the addition of 32-bit words.\<close>

function init_loop ::
  "'a::linordered_field list \<Rightarrow> TIndex \<Rightarrow> TIndex \<Rightarrow> 'a build_state \<Rightarrow> error + 'a build_state" where
  "init_loop probabilities n i st =
     (if i < n
      then (case init_body probabilities n i st of
              Inl e \<Rightarrow> Inl e
            | Inr st' \<Rightarrow> init_loop probabilities n (i + 1) st')
      else Inr st)"
  by pat_completeness auto
termination
proof (relation "measure (\<lambda>(probabilities, n, i, st). unat n - unat i)")
  show "wf (measure (\<lambda>(probabilities :: 'a list, n :: TIndex, i :: TIndex, st :: 'a build_state).
              unat n - unat i))"
    by simp
next
  fix probabilities :: "'a list" and n i :: TIndex and st x2 :: "'a build_state"
  assume "i < n"
  then have "unat i < unat n"
    by (simp add: word_less_nat_alt)
  moreover from \<open>i < n\<close> have "unat (i + 1) = Suc (unat i)"
    by (rule unat_Suc_less)
  ultimately show "((probabilities, n, i + 1, x2), (probabilities, n, i, st))
      \<in> measure (\<lambda>(probabilities, n, i, st). unat n - unat i)"
    by simp
qed

declare init_loop.simps [simp del]

text \<open>The body of the main loop (lines 42 to 49).\<close>

definition main_body :: "'a::linordered_field build_state \<Rightarrow> 'a build_state" where
  "main_body st =
     (let s = heap_top (small st);
          small1 = heap_pop (WorklistEntryGreater (tableProbs st)) (small st);
          l = heap_top (large st);
          large1 = heap_pop (WorklistEntryLess (tableProbs st)) (large st);
          tA = (tableAliases st)[unat s := l];
          tP = (tableProbs st)[unat l := (tableProbs st ! unat l + tableProbs st ! unat s) - 1]
      in if tP ! unat l < 1
         then \<lparr>tableProbs = tP, tableAliases = tA,
               small = heap_push (WorklistEntryGreater tP) l small1, large = large1\<rparr>
         else \<lparr>tableProbs = tP, tableAliases = tA,
               small = small1, large = heap_push (WorklistEntryLess tP) l large1\<rparr>)"

lemma fold_select_in: "fold (\<lambda>x m. if cmp m x then x else m) ys y \<in> set (y # ys)"
  by (induction ys arbitrary: y) auto

lemma length_heap_select [simp]: "length (heap_select cmp h) = length h"
proof (cases h)
  case Nil
  then show ?thesis by simp
next
  case (Cons y ys)
  define m where "m = fold (\<lambda>x m. if cmp m x then x else m) ys y"
  have "m \<in> set (y # ys)"
    unfolding m_def by (rule fold_select_in)
  then have "length (remove1 m (y # ys)) = length ys"
    by (simp only: length_remove1 if_True) simp
  with Cons show ?thesis
    by (simp add: Let_def m_def del: remove1.simps)
qed

lemma length_heap_pop [simp]: "length (heap_pop cmp h) = length h - 1"
  by (cases h) simp_all

lemma length_heap_push [simp]: "length (heap_push cmp x h) = Suc (length h)"
  by (cases h) simp_all

lemma main_body_length:
  "small st \<noteq> [] \<Longrightarrow> large st \<noteq> [] \<Longrightarrow>
   length (small (main_body st)) + length (large (main_body st))
     < length (small st) + length (large st)"
  by (cases "small st"; cases "large st") (simp_all add: main_body_def Let_def)

text \<open>\<^verbatim>\<open>while(!small.empty() && !large.empty())\<close>\<close>

function main_loop :: "'a::linordered_field build_state \<Rightarrow> 'a build_state" where
  "main_loop st =
     (if small st \<noteq> [] \<and> large st \<noteq> [] then main_loop (main_body st) else st)"
  by pat_completeness auto
termination
  by (relation "measure (\<lambda>st. length (small st) + length (large st))")
    (simp_all add: main_body_length)

declare main_loop.simps [simp del]

text \<open>The number of times the body of the main loop runs, by the same recursion.\<close>

function main_loop_iterations :: "'a::linordered_field build_state \<Rightarrow> nat" where
  "main_loop_iterations st =
     (if small st \<noteq> [] \<and> large st \<noteq> [] then Suc (main_loop_iterations (main_body st)) else 0)"
  by pat_completeness auto
termination
  by (relation "measure (\<lambda>st. length (small st) + length (large st))")
    (simp_all add: main_body_length)

declare main_loop_iterations.simps [simp del]

text \<open>
  The two last loops (lines 52 to 62). The top is written first and popped afterwards:
  \<^verbatim>\<open>pop()\<close> removes the element that \<^verbatim>\<open>top()\<close> returned and compares the others
  with the array as it is after the write.
\<close>

function drain_small :: "'a::linordered_field build_state \<Rightarrow> 'a build_state" where
  "drain_small st =
     (if small st \<noteq> []
      then let tP = (tableProbs st)[unat (heap_top (small st)) := 1]
           in drain_small (st\<lparr>tableProbs := tP,
                               small := heap_pop (WorklistEntryGreater tP) (small st)\<rparr>)
      else st)"
  by pat_completeness auto
termination
  by (relation "measure (\<lambda>st. length (small st))") (simp_all add: Let_def)

declare drain_small.simps [simp del]

function drain_large :: "'a::linordered_field build_state \<Rightarrow> 'a build_state" where
  "drain_large st =
     (if large st \<noteq> []
      then let tP = (tableProbs st)[unat (heap_top (large st)) := 1]
           in drain_large (st\<lparr>tableProbs := tP,
                               large := heap_pop (WorklistEntryLess tP) (large st)\<rparr>)
      else st)"
  by pat_completeness auto
termination
  by (relation "measure (\<lambda>st. length (large st))") (simp_all add: Let_def)

declare drain_large.simps [simp del]

text \<open>
  The state at line 40, after the first loop: \<open>outProbs\<close> and \<open>outAliases\<close> are the
  caller's buffers \<^verbatim>\<open>tableProbs\<close> and \<^verbatim>\<open>tableAliases\<close> as they are at the call, the
  heaps start empty.
\<close>

definition init_state ::
  "'a::linordered_field list \<Rightarrow> TIndex \<Rightarrow> 'a list \<Rightarrow> TIndex list \<Rightarrow> error + 'a build_state" where
  "init_state probabilities n outProbs outAliases =
     init_loop probabilities n 0
       \<lparr>tableProbs = outProbs, tableAliases = outAliases, small = [], large = []\<rparr>"

text \<open>The whole function: it returns the two output arrays.\<close>

definition BuildAliasTable ::
  "'a::linordered_field list \<Rightarrow> TIndex \<Rightarrow> 'a list \<Rightarrow> TIndex list
     \<Rightarrow> error + ('a list \<times> TIndex list)" where
  "BuildAliasTable probabilities n outProbs outAliases =
     (case init_state probabilities n outProbs outAliases of
        Inl e \<Rightarrow> Inl e
      | Inr st \<Rightarrow>
          let st' = drain_large (drain_small (main_loop st))
          in Inr (tableProbs st', tableAliases st'))"

subsection \<open>The build at \<^verbatim>\<open>T = float\<close>\<close>

text \<open>
  The build with its arithmetic results passed through \<open>rnd\<close>: the conversion of \<open>n\<close>
  and the product at line 34, the sum and the difference at line 46. The comparisons and
  the two last loops have no arithmetic.
\<close>

definition init_body_rounded ::
  "('a \<Rightarrow> 'a) \<Rightarrow> 'a::linordered_field list \<Rightarrow> TIndex \<Rightarrow> TIndex \<Rightarrow> 'a build_state
     \<Rightarrow> error + 'a build_state" where
  "init_body_rounded rnd probabilities n i st =
     (if length (tableAliases st) \<le> unat i \<or> length probabilities \<le> unat i
         \<or> length (tableProbs st) \<le> unat i
      then Inl OutOfBounds
      else
        let tA = (tableAliases st)[unat i := NOT 0];
            tP = (tableProbs st)[unat i := rnd (probabilities ! unat i * rnd (of_nat (unat n)))];
            st1 = st\<lparr>tableProbs := tP, tableAliases := tA\<rparr>
        in if tP ! unat i < 1
           then Inr (st1\<lparr>small := heap_push (WorklistEntryGreater tP) i (small st1)\<rparr>)
           else Inr (st1\<lparr>large := heap_push (WorklistEntryLess tP) i (large st1)\<rparr>))"

function init_loop_rounded ::
  "('a \<Rightarrow> 'a) \<Rightarrow> 'a::linordered_field list \<Rightarrow> TIndex \<Rightarrow> TIndex \<Rightarrow> 'a build_state
     \<Rightarrow> error + 'a build_state" where
  "init_loop_rounded rnd probabilities n i st =
     (if i < n
      then (case init_body_rounded rnd probabilities n i st of
              Inl e \<Rightarrow> Inl e
            | Inr st' \<Rightarrow> init_loop_rounded rnd probabilities n (i + 1) st')
      else Inr st)"
  by pat_completeness auto
termination
  by (relation "measure (\<lambda>(rnd, probabilities, n, i, st). unat n - unat i)")
    (simp_all add: unat_Suc_less word_less_nat_alt)

declare init_loop_rounded.simps [simp del]

definition main_body_rounded ::
  "('a \<Rightarrow> 'a) \<Rightarrow> 'a::linordered_field build_state \<Rightarrow> 'a build_state" where
  "main_body_rounded rnd st =
     (let s = heap_top (small st);
          small1 = heap_pop (WorklistEntryGreater (tableProbs st)) (small st);
          l = heap_top (large st);
          large1 = heap_pop (WorklistEntryLess (tableProbs st)) (large st);
          tA = (tableAliases st)[unat s := l];
          tP = (tableProbs st)
                 [unat l := rnd (rnd (tableProbs st ! unat l + tableProbs st ! unat s) - 1)]
      in if tP ! unat l < 1
         then \<lparr>tableProbs = tP, tableAliases = tA,
               small = heap_push (WorklistEntryGreater tP) l small1, large = large1\<rparr>
         else \<lparr>tableProbs = tP, tableAliases = tA,
               small = small1, large = heap_push (WorklistEntryLess tP) l large1\<rparr>)"

lemma main_body_rounded_length:
  "small st \<noteq> [] \<Longrightarrow> large st \<noteq> [] \<Longrightarrow>
   length (small (main_body_rounded rnd st)) + length (large (main_body_rounded rnd st))
     < length (small st) + length (large st)"
  by (cases "small st"; cases "large st") (simp_all add: main_body_rounded_def Let_def)

function main_loop_rounded ::
  "('a \<Rightarrow> 'a) \<Rightarrow> 'a::linordered_field build_state \<Rightarrow> 'a build_state" where
  "main_loop_rounded rnd st =
     (if small st \<noteq> [] \<and> large st \<noteq> []
      then main_loop_rounded rnd (main_body_rounded rnd st) else st)"
  by pat_completeness auto
termination
  by (relation "measure (\<lambda>(rnd, st). length (small st) + length (large st))")
    (simp_all add: main_body_rounded_length)

declare main_loop_rounded.simps [simp del]

definition BuildAliasTable_rounded ::
  "('a \<Rightarrow> 'a) \<Rightarrow> 'a::linordered_field list \<Rightarrow> TIndex \<Rightarrow> 'a list \<Rightarrow> TIndex list
     \<Rightarrow> error + ('a list \<times> TIndex list)" where
  "BuildAliasTable_rounded rnd probabilities n outProbs outAliases =
     (case init_loop_rounded rnd probabilities n 0
             \<lparr>tableProbs = outProbs, tableAliases = outAliases, small = [], large = []\<rparr> of
        Inl e \<Rightarrow> Inl e
      | Inr st \<Rightarrow>
          let st' = drain_large (drain_small (main_loop_rounded rnd st))
          in Inr (tableProbs st', tableAliases st'))"

section \<open>The notions of the claims\<close>

text \<open>
  The probability mass function of the comment at line 9 and of the specification: \<open>n\<close>
  weights, \<open>n\<close> at least 1, none negative, summing to 1.
\<close>

definition valid_pmf :: "'a::linordered_field list \<Rightarrow> TIndex \<Rightarrow> bool" where
  "valid_pmf probabilities n \<longleftrightarrow>
     1 \<le> n \<and> length probabilities = unat n \<and> (\<forall>p\<in>set probabilities. 0 \<le> p) \<and>
     sum_list probabilities = 1"

text \<open>The indices that are in one of the two worklists.\<close>

definition worklist :: "'a build_state \<Rightarrow> TIndex set" where
  "worklist st = set (small st) \<union> set (large st)"

text \<open>
  The mass that a table gives to the outcome \<open>j\<close>: slot \<open>j\<close> keeps \<open>tableProbs[j]\<close> for
  itself, and every slot \<open>i\<close> with alias \<open>j\<close> hands over \<open>1 - tableProbs[i]\<close>.
\<close>

definition outcome_mass :: "'a::linordered_field list \<Rightarrow> TIndex list \<Rightarrow> TIndex \<Rightarrow> nat \<Rightarrow> 'a" where
  "outcome_mass tP tA n j =
     tP ! j + (\<Sum>i\<leftarrow>[0..<unat n]. if tA ! i = of_nat j then 1 - tP ! i else 0)"

section \<open>Invariants of the build\<close>

text \<open>
  \<open>init_inv\<close> holds at the head of the first loop, at index \<open>i\<close>. \<open>worklists_inv\<close> is the
  shape of the worklists during the main loop: no index twice, every index below \<open>n\<close>.
  \<open>build_inv\<close> adds the values: entries of \<open>small\<close> are below 1, entries of \<open>large\<close> are
  at least 1, nothing is negative, an index in a worklist has no alias yet and an index
  that has left them has an alias below \<open>n\<close> and a cutoff below 1. \<open>sum_inv\<close> says that the
  entries in the worklists sum to their number, \<open>mass_inv\<close> that every outcome has the
  mass \<open>n * probabilities[j]\<close>, counting what its aliased slots hand over. \<open>tops_inv\<close>
  says that the top of \<open>small\<close> has the least entry among the indices in \<open>small\<close> and the
  top of \<open>large\<close> the greatest among those in \<open>large\<close>.
\<close>

definition init_inv :: "'a::linordered_field list \<Rightarrow> TIndex \<Rightarrow> TIndex \<Rightarrow> 'a build_state \<Rightarrow> bool" where
  "init_inv probabilities n i st \<longleftrightarrow>
     length (tableProbs st) = unat n \<and> length (tableAliases st) = unat n \<and>
     distinct (small st) \<and> distinct (large st) \<and>
     length (small st) + length (large st) = unat i \<and>
     set (small st) = {j. j < i \<and> tableProbs st ! unat j < 1} \<and>
     set (large st) = {j. j < i \<and> 1 \<le> tableProbs st ! unat j} \<and>
     (\<forall>j. j < i \<longrightarrow>
        tableProbs st ! unat j = probabilities ! unat j * of_nat (unat n) \<and>
        tableAliases st ! unat j = NOT 0)"

definition worklists_inv :: "TIndex \<Rightarrow> 'a build_state \<Rightarrow> bool" where
  "worklists_inv n st \<longleftrightarrow>
     length (tableProbs st) = unat n \<and> length (tableAliases st) = unat n \<and>
     distinct (small st) \<and> distinct (large st) \<and> set (small st) \<inter> set (large st) = {} \<and>
     (\<forall>i\<in>worklist st. i < n)"

definition build_inv :: "TIndex \<Rightarrow> 'a::linordered_field build_state \<Rightarrow> bool" where
  "build_inv n st \<longleftrightarrow>
     length (tableProbs st) = unat n \<and> length (tableAliases st) = unat n \<and>
     distinct (small st) \<and> distinct (large st) \<and> set (small st) \<inter> set (large st) = {} \<and>
     (\<forall>i\<in>set (small st). i < n \<and> tableProbs st ! unat i < 1) \<and>
     (\<forall>i\<in>set (large st). i < n \<and> 1 \<le> tableProbs st ! unat i) \<and>
     (\<forall>i. i < n \<longrightarrow> 0 \<le> tableProbs st ! unat i) \<and>
     (\<forall>i. i < n \<longrightarrow>
        (if i \<in> worklist st then tableAliases st ! unat i = NOT 0
         else tableAliases st ! unat i < n \<and> tableProbs st ! unat i < 1))"

definition sum_inv :: "'a::linordered_field build_state \<Rightarrow> bool" where
  "sum_inv st \<longleftrightarrow> (\<Sum>i\<in>worklist st. tableProbs st ! unat i) = of_nat (card (worklist st))"

definition mass_inv :: "'a::linordered_field list \<Rightarrow> TIndex \<Rightarrow> 'a build_state \<Rightarrow> bool" where
  "mass_inv probabilities n st \<longleftrightarrow>
     (\<forall>j<n. tableProbs st ! unat j +
        (\<Sum>i | i < n \<and> tableAliases st ! unat i = j. 1 - tableProbs st ! unat i)
        = probabilities ! unat j * of_nat (unat n))"

definition tops_inv :: "'a::linordered_field build_state \<Rightarrow> bool" where
  "tops_inv st \<longleftrightarrow>
     (\<forall>i\<in>set (small st). tableProbs st ! unat (heap_top (small st)) \<le> tableProbs st ! unat i) \<and>
     (\<forall>i\<in>set (large st). tableProbs st ! unat i \<le> tableProbs st ! unat (heap_top (large st)))"

text \<open>One run of the body of each of the two last loops.\<close>

definition drain_small_step :: "'a::linordered_field build_state \<Rightarrow> 'a build_state" where
  "drain_small_step st =
     st\<lparr>tableProbs := (tableProbs st)[unat (heap_top (small st)) := 1],
        small := heap_pop (WorklistEntryGreater ((tableProbs st)[unat (heap_top (small st)) := 1]))
                   (small st)\<rparr>"

definition drain_large_step :: "'a::linordered_field build_state \<Rightarrow> 'a build_state" where
  "drain_large_step st =
     st\<lparr>tableProbs := (tableProbs st)[unat (heap_top (large st)) := 1],
        large := heap_pop (WorklistEntryLess ((tableProbs st)[unat (heap_top (large st)) := 1]))
                   (large st)\<rparr>"

subsection \<open>The heaps keep their elements\<close>

lemma set_heap_push [simp]: "set (heap_push cmp x h) = insert x (set h)"
  by (cases h) auto

lemma distinct_heap_push [simp]: "distinct (heap_push cmp x h) \<longleftrightarrow> x \<notin> set h \<and> distinct h"
  by (cases h) auto

lemma set_Cons_remove1: "x \<in> set zs \<Longrightarrow> set (x # remove1 x zs) = set zs"
  by (induction zs) auto

lemma set_heap_select [simp]: "set (heap_select cmp h) = set h"
proof (cases h)
  case Nil
  then show ?thesis by simp
next
  case (Cons y ys)
  show ?thesis
    unfolding Cons heap_select.simps Let_def
    using fold_select_in [of cmp ys y] by (rule set_Cons_remove1)
qed

lemma distinct_heap_select [simp]: "distinct h \<Longrightarrow> distinct (heap_select cmp h)"
  by (cases h) (simp_all add: Let_def del: remove1.simps)

lemma main_body_Cons:
  assumes "small st = s # S" and "large st = l # L" and "unat l < length (tableProbs st)"
  defines "v \<equiv> (tableProbs st ! unat l + tableProbs st ! unat s) - 1"
  shows "tableProbs (main_body st) = (tableProbs st)[unat l := v]"
    and "tableAliases (main_body st) = (tableAliases st)[unat s := l]"
    and "set (small (main_body st)) = (if v < 1 then insert l (set S) else set S)"
    and "set (large (main_body st)) = (if v < 1 then set L else insert l (set L))"
    and "distinct S \<Longrightarrow> distinct (l # L) \<Longrightarrow> l \<notin> set S \<Longrightarrow> distinct (small (main_body st)) \<and> distinct (large (main_body st))"
  using assms by (simp_all add: main_body_def Let_def)

lemma main_body_inv:
  assumes inv: "build_inv n st" and ne: "small st \<noteq> []" "large st \<noteq> []"
  shows "build_inv n (main_body st)"
proof -
  obtain s S l L where sm: "small st = s # S" and lg: "large st = l # L"
    using ne by (cases "small st"; cases "large st") auto
  define v where "v = (tableProbs st ! unat l + tableProbs st ! unat s) - 1"
  from inv sm lg have idx: "s < n" "l < n" "s \<noteq> l"
    and dist: "distinct S" "distinct (l # L)" "s \<notin> set S" "l \<notin> set S" "s \<notin> set L"
      "set S \<inter> set L = {}"
    and len: "length (tableProbs st) = unat n" "length (tableAliases st) = unat n"
    and val: "tableProbs st ! unat s < 1" "1 \<le> tableProbs st ! unat l" "0 \<le> tableProbs st ! unat s"
    by (auto simp: build_inv_def)
  from idx have un: "unat s < unat n" "unat l < unat n" "unat s \<noteq> unat l"
    by (simp_all add: word_less_nat_alt word_unat_eq_iff)
  from un len have lP: "unat l < length (tableProbs st)"
    by simp
  note mb = main_body_Cons [OF sm lg lP, folded v_def]
  have v0: "0 \<le> v"
    using val by (simp add: v_def)
  have wl: "worklist (main_body st) = worklist st - {s}"
    using dist idx by (auto simp: worklist_def mb sm lg)
  have P: "tableProbs (main_body st) ! unat i = (if i = l then v else tableProbs st ! unat i)"
    if "i < n" for i
    using that un len by (simp add: mb nth_list_update word_less_nat_alt word_unat_eq_iff)
  have A: "tableAliases (main_body st) ! unat i = (if i = s then l else tableAliases st ! unat i)"
    if "i < n" for i
    using that un len by (simp add: mb nth_list_update word_less_nat_alt word_unat_eq_iff)
  have l_ne: "l \<noteq> NOT 0"
    using idx by auto
  show ?thesis
    unfolding build_inv_def
  proof (intro conjI)
    show "length (tableProbs (main_body st)) = unat n" "length (tableAliases (main_body st)) = unat n"
      using len by (simp_all add: mb)
    show "distinct (small (main_body st))" "distinct (large (main_body st))"
      using mb(5) dist by simp_all
    show "set (small (main_body st)) \<inter> set (large (main_body st)) = {}"
      using dist by (auto simp: mb)
    show "\<forall>i\<in>set (small (main_body st)). i < n \<and> tableProbs (main_body st) ! unat i < 1"
      using inv idx dist by (auto simp: mb(3) P sm build_inv_def split: if_splits)
    show "\<forall>i\<in>set (large (main_body st)). i < n \<and> 1 \<le> tableProbs (main_body st) ! unat i"
      using inv idx dist by (auto simp: mb(4) P lg build_inv_def split: if_splits)
    show "\<forall>i. i < n \<longrightarrow> 0 \<le> tableProbs (main_body st) ! unat i"
      using inv v0 by (auto simp: P build_inv_def)
    show "\<forall>i. i < n \<longrightarrow>
        (if i \<in> worklist (main_body st) then tableAliases (main_body st) ! unat i = NOT 0
         else tableAliases (main_body st) ! unat i < n \<and> tableProbs (main_body st) ! unat i < 1)"
    proof (intro allI impI)
      fix i assume "i < n"
      with inv have old: "if i \<in> worklist st then tableAliases st ! unat i = NOT 0
         else tableAliases st ! unat i < n \<and> tableProbs st ! unat i < 1"
        by (simp add: build_inv_def)
      have "l \<in> worklist st" "s \<in> worklist st"
        by (simp_all add: worklist_def sm lg)
      with old \<open>i < n\<close> idx val show "if i \<in> worklist (main_body st) then tableAliases (main_body st) ! unat i = NOT 0
         else tableAliases (main_body st) ! unat i < n \<and> tableProbs (main_body st) ! unat i < 1"
        by (auto simp: wl P A split: if_splits)
    qed
  qed
qed

lemma main_loop_inv: "build_inv n st \<Longrightarrow> build_inv n (main_loop st)"
proof (induction st rule: main_loop.induct)
  case (1 st)
  show ?case
  proof (cases "small st \<noteq> [] \<and> large st \<noteq> []")
    case True
    with "1.prems" have "build_inv n (main_body st)"
      by (simp add: main_body_inv)
    with True "1.IH" have "build_inv n (main_loop (main_body st))"
      by simp
    with True show ?thesis
      by (subst main_loop.simps) simp
  next
    case False
    then have "main_loop st = st"
      by (subst main_loop.simps) auto
    with "1.prems" show ?thesis
      by simp
  qed
qed

lemma main_loop_exit: "small (main_loop st) = [] \<or> large (main_loop st) = []"
proof (induction st rule: main_loop.induct)
  case (1 st)
  show ?case
  proof (cases "small st \<noteq> [] \<and> large st \<noteq> []")
    case True
    with "1.IH" show ?thesis
      by (subst main_loop.simps, subst (2) main_loop.simps) simp
  next
    case False
    then have "main_loop st = st"
      by (subst main_loop.simps) auto
    with False show ?thesis
      by auto
  qed
qed

lemma set_heap_pop: "set (heap_pop cmp h) = set (tl h)"
  by (cases h) simp_all

lemma drain_small_unfold:
  "drain_small st = (if small st \<noteq> [] then drain_small (drain_small_step st) else st)"
  by (subst drain_small.simps) (simp add: Let_def drain_small_step_def)

lemma drain_small_fields:
  "tableAliases (drain_small st) = tableAliases st \<and> large (drain_small st) = large st \<and>
   small (drain_small st) = [] \<and> length (tableProbs (drain_small st)) = length (tableProbs st)"
proof (induction "length (small st)" arbitrary: st)
  case 0
  then show ?case
    by (subst (1 2 3 4) drain_small_unfold) simp
next
  case (Suc k)
  then have "k = length (small (drain_small_step st))" and "small st \<noteq> []"
    by (auto simp: drain_small_step_def)
  with Suc.hyps(1) [of "drain_small_step st"] show ?case
    by (subst (1 2 3 4) drain_small_unfold) (simp add: drain_small_step_def)
qed

lemma drain_small_nth:
  "\<forall>i\<in>set (small st). unat i < length (tableProbs st) \<Longrightarrow>
   tableProbs (drain_small st) ! k = (if k \<in> unat ` set (small st) then 1 else tableProbs st ! k)"
proof (induction "length (small st)" arbitrary: st)
  case 0
  then show ?case
    by (subst drain_small_unfold) simp
next
  case (Suc m)
  then obtain t ts where Cons: "small st = t # ts"
    by (cases "small st") auto
  let ?st = "drain_small_step st"
  have sm: "small ?st = heap_select (WorklistEntryGreater ((tableProbs st)[unat t := 1])) ts"
    and tP: "tableProbs ?st = (tableProbs st)[unat t := 1]"
    by (simp_all add: drain_small_step_def Cons)
  have "m = length (small ?st)"
    using Suc.hyps(2) by (simp add: sm Cons)
  moreover have "\<forall>i\<in>set (small ?st). unat i < length (tableProbs ?st)"
    using Suc.prems by (simp add: sm tP Cons)
  ultimately have "tableProbs (drain_small ?st) ! k =
      (if k \<in> unat ` set (small ?st) then 1 else tableProbs ?st ! k)"
    by (rule Suc.hyps(1))
  moreover have "unat t < length (tableProbs st)"
    using Suc.prems Cons by simp
  moreover have "drain_small st = drain_small ?st"
    by (subst drain_small_unfold) (simp add: Cons)
  ultimately show ?case
    by (auto simp: sm tP Cons nth_list_update)
qed

lemma drain_large_unfold:
  "drain_large st = (if large st \<noteq> [] then drain_large (drain_large_step st) else st)"
  by (subst drain_large.simps) (simp add: Let_def drain_large_step_def)

lemma drain_large_fields:
  "tableAliases (drain_large st) = tableAliases st \<and> small (drain_large st) = small st \<and>
   large (drain_large st) = [] \<and> length (tableProbs (drain_large st)) = length (tableProbs st)"
proof (induction "length (large st)" arbitrary: st)
  case 0
  then show ?case
    by (subst (1 2 3 4) drain_large_unfold) simp
next
  case (Suc k)
  then have "k = length (large (drain_large_step st))" and "large st \<noteq> []"
    by (auto simp: drain_large_step_def)
  with Suc.hyps(1) [of "drain_large_step st"] show ?case
    by (subst (1 2 3 4) drain_large_unfold) (simp add: drain_large_step_def)
qed

lemma drain_large_nth:
  "\<forall>i\<in>set (large st). unat i < length (tableProbs st) \<Longrightarrow>
   tableProbs (drain_large st) ! k = (if k \<in> unat ` set (large st) then 1 else tableProbs st ! k)"
proof (induction "length (large st)" arbitrary: st)
  case 0
  then show ?case
    by (subst drain_large_unfold) simp
next
  case (Suc m)
  then obtain t ts where Cons: "large st = t # ts"
    by (cases "large st") auto
  let ?st = "drain_large_step st"
  have sm: "large ?st = heap_select (WorklistEntryLess ((tableProbs st)[unat t := 1])) ts"
    and tP: "tableProbs ?st = (tableProbs st)[unat t := 1]"
    by (simp_all add: drain_large_step_def Cons)
  have "m = length (large ?st)"
    using Suc.hyps(2) by (simp add: sm Cons)
  moreover have "\<forall>i\<in>set (large ?st). unat i < length (tableProbs ?st)"
    using Suc.prems by (simp add: sm tP Cons)
  ultimately have "tableProbs (drain_large ?st) ! k =
      (if k \<in> unat ` set (large ?st) then 1 else tableProbs ?st ! k)"
    by (rule Suc.hyps(1))
  moreover have "unat t < length (tableProbs st)"
    using Suc.prems Cons by simp
  moreover have "drain_large st = drain_large ?st"
    by (subst drain_large_unfold) (simp add: Cons)
  ultimately show ?case
    by (auto simp: sm tP Cons nth_list_update)
qed

text \<open>What the two last loops do to a state that satisfies the invariant.\<close>

lemma drain_result:
  assumes inv: "build_inv n st"
  defines "st' \<equiv> drain_large (drain_small st)"
  shows "tableAliases st' = tableAliases st"
    and "length (tableProbs st') = unat n"
    and "i < n \<Longrightarrow> tableProbs st' ! unat i = (if i \<in> worklist st then 1 else tableProbs st ! unat i)"
proof -
  let ?m = "drain_small st"
  show "tableAliases st' = tableAliases st"
    by (simp add: st'_def drain_large_fields drain_small_fields)
  from inv show "length (tableProbs st') = unat n"
    by (simp add: st'_def drain_large_fields drain_small_fields build_inv_def)
  from inv have sm: "\<forall>j\<in>set (small st). unat j < length (tableProbs st)"
    and lg: "\<forall>j\<in>set (large ?m). unat j < length (tableProbs ?m)"
    by (auto simp: build_inv_def drain_small_fields word_less_nat_alt)
  have inj: "unat i \<in> unat ` X \<longleftrightarrow> i \<in> X" for X :: "TIndex set"
    by (auto simp flip: word_unat_eq_iff)
  show "tableProbs st' ! unat i = (if i \<in> worklist st then 1 else tableProbs st ! unat i)"
    unfolding st'_def
    by (simp add: drain_large_nth [OF lg] drain_small_nth [OF sm] drain_small_fields inj worklist_def)
qed

lemma word_less_Suc_iff: "(i :: TIndex) < n \<Longrightarrow> j < i + 1 \<longleftrightarrow> j < i \<or> j = i"
  by (auto simp: word_less_nat_alt unat_Suc_less word_unat_eq_iff)

lemma init_body_inv:
  assumes inv: "init_inv probabilities n i st" and i: "i < n"
    and len: "length probabilities = unat n"
  shows "\<exists>st'. init_body probabilities n i st = Inr st' \<and> init_inv probabilities n (i + 1) st'"
proof -
  define v where "v = probabilities ! unat i * of_nat (unat n)"
  define tP where "tP = (tableProbs st)[unat i := v]"
  define tA where "tA = (tableAliases st)[unat i := NOT 0]"
  from i have ui: "unat i < unat n"
    by (simp add: word_less_nat_alt)
  from inv have lens: "length (tableProbs st) = unat n" "length (tableAliases st) = unat n"
    by (simp_all add: init_inv_def)
  have P: "tP ! unat j = (if j = i then v else tableProbs st ! unat j)" for j
    using ui lens by (simp add: tP_def nth_list_update word_unat_eq_iff)
  have A: "tA ! unat j = (if j = i then NOT 0 else tableAliases st ! unat j)" for j
    using ui lens by (simp add: tA_def nth_list_update word_unat_eq_iff)
  have new: "i \<notin> set (small st)" "i \<notin> set (large st)"
    using inv by (simp_all add: init_inv_def)
  have lens': "length tP = unat n" "length tA = unat n"
    using lens by (simp_all add: tP_def tA_def)
  show ?thesis
  proof (cases "v < 1")
    case True
    define st' where "st' = \<lparr>tableProbs = tP, tableAliases = tA,
      small = heap_push (WorklistEntryGreater tP) i (small st), large = large st\<rparr>"
    have "init_body probabilities n i st = Inr st'"
      using True ui lens len by (simp add: init_body_def Let_def st'_def tP_def tA_def v_def)
    moreover have "init_inv probabilities n (i + 1) st'"
      using inv True new lens'
      by (auto simp: init_inv_def st'_def word_less_Suc_iff [OF i] unat_Suc_less [OF i] P A v_def)
    ultimately show ?thesis
      by blast
  next
    case False
    define st' where "st' = \<lparr>tableProbs = tP, tableAliases = tA,
      small = small st, large = heap_push (WorklistEntryLess tP) i (large st)\<rparr>"
    have "init_body probabilities n i st = Inr st'"
      using False ui lens len by (simp add: init_body_def Let_def st'_def tP_def tA_def v_def)
    moreover have "init_inv probabilities n (i + 1) st'"
      using inv False new lens'
      by (auto simp: init_inv_def st'_def word_less_Suc_iff [OF i] unat_Suc_less [OF i] P A v_def)
    ultimately show ?thesis
      by blast
  qed
qed

lemma init_loop_inv:
  "init_inv probabilities n i st \<Longrightarrow> i \<le> n \<Longrightarrow> length probabilities = unat n \<Longrightarrow>
   \<exists>st'. init_loop probabilities n i st = Inr st' \<and> init_inv probabilities n n st'"
proof (induction probabilities n i st rule: init_loop.induct)
  case (1 probabilities n i st)
  show ?case
  proof (cases "i < n")
    case True
    with "1.prems" obtain st1 where b: "init_body probabilities n i st = Inr st1"
      and inv1: "init_inv probabilities n (i + 1) st1"
      using init_body_inv by blast
    from True have "i + 1 \<le> n"
      by (rule inc_le)
    with "1.IH" [OF True b inv1] "1.prems" obtain st' where
      "init_loop probabilities n (i + 1) st1 = Inr st'" "init_inv probabilities n n st'"
      by blast
    with True b show ?thesis
      by (subst init_loop.simps) simp
  next
    case False
    with "1.prems" have "i = n"
      by simp
    with "1.prems" show ?thesis
      by (subst init_loop.simps) simp
  qed
qed

lemma init_state_inv:
  assumes "length probabilities = unat n" "length outProbs = unat n" "length outAliases = unat n"
  shows "\<exists>st. init_state probabilities n outProbs outAliases = Inr st \<and> init_inv probabilities n n st"
  unfolding init_state_def
  using assms by (intro init_loop_inv) (simp_all add: init_inv_def)

lemma init_inv_build_inv:
  assumes "init_inv probabilities n n st" and "length probabilities = unat n"
    and "\<forall>p\<in>set probabilities. 0 \<le> p"
  shows "build_inv n st"
proof -
  have "0 \<le> probabilities ! unat j * of_nat (unat n)" if "j < n" for j
  proof -
    from that assms(2) have "probabilities ! unat j \<in> set probabilities"
      by (simp add: word_less_nat_alt)
    with assms(3) have "0 \<le> probabilities ! unat j"
      by blast
    then show ?thesis
      by (rule mult_nonneg_nonneg) (rule of_nat_0_le_iff)
  qed
  with assms(1) show ?thesis
    by (auto simp: build_inv_def init_inv_def worklist_def)
qed

lemma nat_index: "k < unat (n :: TIndex) \<Longrightarrow> \<exists>i. i < n \<and> unat i = k"
proof
  assume "k < unat n"
  then have "unat (of_nat k :: TIndex) = k"
    by (simp add: le_unat_uoi [of k n])
  with \<open>k < unat n\<close> show "(of_nat k :: TIndex) < n \<and> unat (of_nat k :: TIndex) = k"
    by (simp add: word_less_nat_alt)
qed

lemma BuildAliasTable_char:
  assumes len: "length probabilities = unat n" "length outProbs = unat n" "length outAliases = unat n"
    and nonneg: "\<forall>p\<in>set probabilities. 0 \<le> p"
  obtains st1 st2 tP where
    "init_state probabilities n outProbs outAliases = Inr st1"
    "init_inv probabilities n n st1"
    "st2 = main_loop st1"
    "build_inv n st2"
    "BuildAliasTable probabilities n outProbs outAliases = Inr (tP, tableAliases st2)"
    "length tP = unat n"
    "\<And>i. i < n \<Longrightarrow> tP ! unat i = (if i \<in> worklist st2 then 1 else tableProbs st2 ! unat i)"
proof -
  from len obtain st1 where st1: "init_state probabilities n outProbs outAliases = Inr st1"
    and i1: "init_inv probabilities n n st1"
    using init_state_inv by blast
  from i1 len(1) nonneg have "build_inv n st1"
    by (rule init_inv_build_inv)
  then have inv2: "build_inv n (main_loop st1)"
    by (rule main_loop_inv)
  note d = drain_result [OF inv2]
  have "BuildAliasTable probabilities n outProbs outAliases =
      Inr (tableProbs (drain_large (drain_small (main_loop st1))), tableAliases (main_loop st1))"
    by (simp add: BuildAliasTable_def st1 Let_def d(1))
  with st1 i1 inv2 d(2,3) show thesis
    by (intro that [of st1 "main_loop st1"]) auto
qed

lemma BuildAliasTable_table:
  assumes "length probabilities = unat n" "length outProbs = unat n" "length outAliases = unat n"
    and "\<forall>p\<in>set probabilities. 0 \<le> p"
  shows "\<exists>st tP tA. init_state probabilities n outProbs outAliases = Inr st \<and>
     BuildAliasTable probabilities n outProbs outAliases = Inr (tP, tA) \<and>
     length tP = unat n \<and> length tA = unat n \<and>
     (\<forall>i\<in>worklist (main_loop st). i < n) \<and>
     (\<forall>i<n. 0 \<le> tP ! unat i \<and> tP ! unat i \<le> 1 \<and>
        (if i \<in> worklist (main_loop st) then tA ! unat i = NOT 0 \<and> tP ! unat i = 1
         else tA ! unat i < n \<and> tA ! unat i \<noteq> NOT 0 \<and> tP ! unat i < 1))"
proof -
  from assms obtain st1 st2 :: "'a build_state" and tP where
    i: "init_state probabilities n outProbs outAliases = Inr st1" and st2: "st2 = main_loop st1"
    and b: "BuildAliasTable probabilities n outProbs outAliases = Inr (tP, tableAliases st2)"
    and inv: "build_inv n st2" and l: "length tP = unat n"
    and P: "\<And>i. i < n \<Longrightarrow> tP ! unat i = (if i \<in> worklist st2 then 1 else tableProbs st2 ! unat i)"
    by (auto elim: BuildAliasTable_char)
  have "0 \<le> tP ! unat i \<and> tP ! unat i \<le> 1 \<and>
      (if i \<in> worklist st2 then tableAliases st2 ! unat i = NOT 0 \<and> tP ! unat i = 1
       else tableAliases st2 ! unat i < n \<and> tableAliases st2 ! unat i \<noteq> NOT 0 \<and> tP ! unat i < 1)"
    if "i < n" for i
  proof -
    from inv that have 0: "0 \<le> tableProbs st2 ! unat i"
      and a: "if i \<in> worklist st2 then tableAliases st2 ! unat i = NOT 0
         else tableAliases st2 ! unat i < n \<and> tableProbs st2 ! unat i < 1"
      by (simp_all add: build_inv_def)
    show ?thesis
    proof (cases "i \<in> worklist st2")
      case True
      with a P [OF that] show ?thesis
        by simp
    next
      case False
      with a have "tableAliases st2 ! unat i < n" "tableProbs st2 ! unat i < 1"
        by simp_all
      moreover from this have "tableAliases st2 ! unat i \<noteq> NOT 0"
        by auto
      ultimately show ?thesis
        using 0 False P [OF that] by simp
    qed
  qed
  moreover from inv have "\<forall>i\<in>worklist st2. i < n"
    by (auto simp: build_inv_def worklist_def)
  ultimately show ?thesis
    using i b l inv unfolding st2 by (auto simp: build_inv_def)
qed

subsection \<open>Evaluation and the slot of the sampler\<close>

lemmas build_eval =
  BuildAliasTable_def init_state_def init_loop.simps init_body_def main_loop.simps main_body_def
  drain_small.simps drain_large.simps Let_def WorklistEntryLess_def WorklistEntryGreater_def

lemmas sample_eval =
  SampleAliasTable_def SampleAliasTable_slot_def static_cast_int_def Let_def

lemma unat_minus_1: "1 \<le> (n :: TIndex) \<Longrightarrow> unat (n - 1) = unat n - 1"
  by (rule unat_minus_one) auto

lemma SampleAliasTable_slot_cases:
  assumes "1 \<le> n" and "SampleAliasTable_slot u n = Inr i"
  shows "i < n" and "i \<le> n - 1" and "unat i < unat n"
proof -
  from assms(1) have n: "0 < unat n" "unat (n - 1) = unat n - 1"
    by (simp_all add: word_le_nat_alt unat_minus_1)
  from assms(2) obtain c where "i = (if (word_of_int c :: TIndex) < n then word_of_int c else n - 1)"
    by (auto simp: SampleAliasTable_slot_def Let_def split: option.splits)
  with n show "unat i < unat n"
    by (auto simp: word_less_nat_alt)
  with n show "i < n" "i \<le> n - 1"
    by (simp_all add: word_less_nat_alt word_le_nat_alt)
qed

subsection \<open>The worklists along the main loop\<close>

lemma main_body_worklists:
  assumes inv: "worklists_inv n st" and ne: "small st \<noteq> []" "large st \<noteq> []"
  shows "worklists_inv n (main_body st)"
    and "worklist (main_body st) = worklist st - {heap_top (small st)}"
    and "heap_top (small st) \<in> worklist st"
proof -
  obtain s S l L where sm: "small st = s # S" and lg: "large st = l # L"
    using ne by (cases "small st"; cases "large st") auto
  from inv sm lg have idx: "s < n" "l < n" "s \<noteq> l"
    and dist: "distinct S" "distinct (l # L)" "s \<notin> set S" "l \<notin> set S" "s \<notin> set L"
      "set S \<inter> set L = {}"
    and len: "length (tableProbs st) = unat n" "length (tableAliases st) = unat n"
    by (auto simp: worklists_inv_def worklist_def)
  from idx len have lP: "unat l < length (tableProbs st)"
    by (simp add: word_less_nat_alt)
  note mb = main_body_Cons [OF sm lg lP]
  show wl: "worklist (main_body st) = worklist st - {heap_top (small st)}"
    using dist idx by (auto simp: worklist_def mb sm lg)
  show "heap_top (small st) \<in> worklist st"
    by (simp add: worklist_def sm)
  from inv have "\<forall>i\<in>worklist (main_body st). i < n"
    by (simp add: wl worklists_inv_def)
  moreover have "set (small (main_body st)) \<inter> set (large (main_body st)) = {}"
    using dist by (auto simp: mb)
  ultimately show "worklists_inv n (main_body st)"
    using len mb(5) dist unfolding worklists_inv_def by (simp add: mb(1,2))
qed

lemma init_inv_worklists:
  "init_inv probabilities n n st \<Longrightarrow>
   worklists_inv n st \<and> length (small st) + length (large st) = unat n"
  by (auto simp: init_inv_def worklists_inv_def worklist_def)

lemma main_loop_funpow: "main_loop st = (main_body ^^ main_loop_iterations st) st"
proof (induction st rule: main_loop.induct)
  case (1 st)
  show ?case
  proof (cases "small st \<noteq> [] \<and> large st \<noteq> []")
    case True
    from True have "main_loop st = main_loop (main_body st)"
      by (subst main_loop.simps) simp
    moreover from True have "main_loop_iterations st = Suc (main_loop_iterations (main_body st))"
      by (subst main_loop_iterations.simps) simp
    ultimately show ?thesis
      using "1.IH" True
      by (simp add: funpow_swap1)
  next
    case False
    from False have "main_loop st = st"
      by (subst main_loop.simps) auto
    moreover from False have "main_loop_iterations st = 0"
      by (subst main_loop_iterations.simps) auto
    ultimately show ?thesis
      by simp
  qed
qed

lemma main_loop_iterations_le:
  "main_loop_iterations st \<le> length (small st) + length (large st)"
proof (induction st rule: main_loop_iterations.induct)
  case (1 st)
  show ?case
  proof (cases "small st \<noteq> [] \<and> large st \<noteq> []")
    case True
    then have "main_loop_iterations st = Suc (main_loop_iterations (main_body st))"
      by (subst main_loop_iterations.simps) simp
    with "1.IH" True main_body_length [of st] show ?thesis
      by simp
  next
    case False
    then have "main_loop_iterations st = 0"
      by (subst main_loop_iterations.simps) auto
    then show ?thesis
      by simp
  qed
qed

lemma main_loop_iterations_pos:
  "0 < main_loop_iterations st \<longleftrightarrow> small st \<noteq> [] \<and> large st \<noteq> []"
  by (subst main_loop_iterations.simps) simp

lemma main_loop_iterations_funpow:
  "k \<le> main_loop_iterations st \<Longrightarrow>
   main_loop_iterations ((main_body ^^ k) st) = main_loop_iterations st - k"
proof (induction k)
  case 0
  then show ?case by simp
next
  case (Suc k)
  let ?sk = "(main_body ^^ k) st"
  from Suc have k: "main_loop_iterations ?sk = main_loop_iterations st - k"
    by simp
  with Suc.prems have "small ?sk \<noteq> [] \<and> large ?sk \<noteq> []"
    by (simp flip: main_loop_iterations_pos)
  then have "main_loop_iterations ?sk = Suc (main_loop_iterations (main_body ?sk))"
    by (subst main_loop_iterations.simps) simp
  with k show ?case
    by simp
qed

lemma funpow_worklists:
  "worklists_inv n st \<Longrightarrow> k \<le> main_loop_iterations st \<Longrightarrow>
   worklists_inv n ((main_body ^^ k) st) \<and> worklist ((main_body ^^ k) st) \<subseteq> worklist st"
proof (induction k)
  case 0
  then show ?case by simp
next
  case (Suc k)
  let ?sk = "(main_body ^^ k) st"
  from Suc have inv: "worklists_inv n ?sk" and sub: "worklist ?sk \<subseteq> worklist st"
    by simp_all
  from Suc.prems have "0 < main_loop_iterations ?sk"
    by (simp add: main_loop_iterations_funpow)
  then have ne: "small ?sk \<noteq> []" "large ?sk \<noteq> []"
    by (simp_all add: main_loop_iterations_pos)
  from main_body_worklists(1,2) [OF inv ne] sub show ?case
    by auto
qed

subsection \<open>The mass of the table\<close>

lemma main_body_nth:
  assumes inv: "worklists_inv n st" and ne: "small st \<noteq> []" "large st \<noteq> []"
  defines "s \<equiv> heap_top (small st)" and "l \<equiv> heap_top (large st)"
  shows "s < n" and "l < n" and "s \<noteq> l" and "s \<in> set (small st)" and "l \<in> set (large st)"
    and "\<And>i. i < n \<Longrightarrow> tableProbs (main_body st) ! unat i =
      (if i = l then (tableProbs st ! unat l + tableProbs st ! unat s) - 1 else tableProbs st ! unat i)"
    and "\<And>i. i < n \<Longrightarrow> tableAliases (main_body st) ! unat i =
      (if i = s then l else tableAliases st ! unat i)"
proof -
  obtain S L where sm: "small st = s # S" and lg: "large st = l # L"
    using ne by (cases "small st"; cases "large st") (auto simp: s_def l_def)
  from inv sm lg show idx: "s < n" "l < n" "s \<noteq> l"
    by (auto simp: worklists_inv_def worklist_def)
  show "s \<in> set (small st)" "l \<in> set (large st)"
    by (simp_all add: sm lg)
  from inv have len: "length (tableProbs st) = unat n" "length (tableAliases st) = unat n"
    by (simp_all add: worklists_inv_def)
  from idx have un: "unat s < unat n" "unat l < unat n"
    by (simp_all add: word_less_nat_alt)
  with len have lP: "unat l < length (tableProbs st)"
    by simp
  note mb = main_body_Cons [OF sm lg lP]
  show "tableProbs (main_body st) ! unat i =
      (if i = l then (tableProbs st ! unat l + tableProbs st ! unat s) - 1 else tableProbs st ! unat i)"
    if "i < n" for i
    using that un len by (simp add: mb nth_list_update word_less_nat_alt word_unat_eq_iff)
  show "tableAliases (main_body st) ! unat i = (if i = s then l else tableAliases st ! unat i)"
    if "i < n" for i
    using that un len by (simp add: mb nth_list_update word_less_nat_alt word_unat_eq_iff)
qed

lemma build_inv_worklists: "build_inv n st \<Longrightarrow> worklists_inv n st"
  by (auto simp: build_inv_def worklists_inv_def worklist_def)

lemma main_body_sum_inv:
  assumes inv: "worklists_inv n st" and ne: "small st \<noteq> []" "large st \<noteq> []"
    and sum: "sum_inv st"
  shows "sum_inv (main_body st)"
proof -
  define s where "s = heap_top (small st)"
  define l where "l = heap_top (large st)"
  define W where "W = worklist st"
  let ?P = "\<lambda>i. tableProbs st ! unat i"
  let ?P' = "\<lambda>i. tableProbs (main_body st) ! unat i"
  note nth = main_body_nth [OF inv ne, folded s_def l_def]
  have W': "worklist (main_body st) = W - {s}"
    using main_body_worklists(2) [OF inv ne] by (simp add: W_def s_def)
  have fin: "finite W"
    by (simp add: W_def worklist_def)
  have mem: "s \<in> W" "l \<in> W - {s}"
    using nth(3-5) by (auto simp: W_def worklist_def)
  have lt: "i < n" if "i \<in> W" for i
    using inv that by (simp add: worklists_inv_def W_def)
  have "sum ?P W = ?P s + sum ?P (W - {s})"
    using fin mem(1) by (rule sum.remove)
  also have "sum ?P (W - {s}) = ?P l + sum ?P (W - {s} - {l})"
    using fin mem(2) by (intro sum.remove) simp_all
  finally have old: "sum ?P W = ?P s + ?P l + sum ?P (W - {s} - {l})"
    by simp
  have "sum ?P' (W - {s}) = ?P' l + sum ?P' (W - {s} - {l})"
    using fin mem(2) by (intro sum.remove) simp_all
  also have "sum ?P' (W - {s} - {l}) = sum ?P (W - {s} - {l})"
    by (rule sum.cong) (auto simp: nth(6) lt)
  also have "?P' l = (?P l + ?P s) - 1"
    by (simp add: nth(6) nth(2))
  finally have "sum ?P' (W - {s}) = sum ?P W - 1"
    using old by simp
  also have "\<dots> = of_nat (card W) - 1"
    using sum by (simp add: sum_inv_def W_def)
  also have "\<dots> = of_nat (card (W - {s}))"
  proof -
    from fin mem(1) have "card W = Suc (card (W - {s}))"
      by (rule card.remove)
    then show ?thesis
      by simp
  qed
  finally show ?thesis
    by (simp add: sum_inv_def W')
qed

lemma main_body_mass_inv:
  assumes inv: "build_inv n st" and ne: "small st \<noteq> []" "large st \<noteq> []"
    and mass: "mass_inv probabilities n st"
  shows "mass_inv probabilities n (main_body st)"
proof -
  define s where "s = heap_top (small st)"
  define l where "l = heap_top (large st)"
  let ?P = "\<lambda>i. tableProbs st ! unat i"
  let ?P' = "\<lambda>i. tableProbs (main_body st) ! unat i"
  let ?A = "\<lambda>i. tableAliases st ! unat i"
  let ?A' = "\<lambda>i. tableAliases (main_body st) ! unat i"
  note nth = main_body_nth [OF build_inv_worklists [OF inv] ne, folded s_def l_def]
  from nth(1,2,4,5) inv have sent: "?A s = NOT 0" "?A l = NOT 0"
    by (auto simp: build_inv_def worklist_def)
  have ne_sent: "j \<noteq> NOT 0" if "j < n" for j
    using that by auto
  show ?thesis
    unfolding mass_inv_def
  proof (intro allI impI)
    fix j assume j: "j < n"
    let ?S = "{i. i < n \<and> ?A i = j}"
    let ?S' = "{i. i < n \<and> ?A' i = j}"
    have l_out: "l \<notin> ?S" and s_out: "s \<notin> ?S"
      using sent ne_sent [OF j] by auto
    have same: "(\<Sum>i\<in>?S. 1 - ?P' i) = (\<Sum>i\<in>?S. 1 - ?P i)"
      using l_out by (intro sum.cong) (auto simp: nth(6))
    from mass j have old: "?P j + (\<Sum>i\<in>?S. 1 - ?P i) = probabilities ! unat j * of_nat (unat n)"
      by (simp add: mass_inv_def)
    have Pj: "?P' j = (if j = l then (?P l + ?P s) - 1 else ?P j)"
      using j by (rule nth(6))
    have Ps: "?P' s = ?P s"
      using nth(3) nth(6) [OF nth(1)] by simp
    show "?P' j + (\<Sum>i\<in>?S'. 1 - ?P' i) = probabilities ! unat j * of_nat (unat n)"
    proof (cases "j = l")
      case True
      have "?S' = insert s ?S"
        using nth(1) sent True ne_sent [OF j] by (auto simp: nth(7))
      then have "(\<Sum>i\<in>?S'. 1 - ?P' i) = (1 - ?P' s) + (\<Sum>i\<in>?S. 1 - ?P' i)"
        using s_out by simp
      then have "(\<Sum>i\<in>?S'. 1 - ?P' i) = (1 - ?P s) + (\<Sum>i\<in>?S. 1 - ?P i)"
        by (simp only: Ps same)
      moreover from True Pj have "?P' j = (?P l + ?P s) - 1"
        by simp
      moreover from old True have "?P l + (\<Sum>i\<in>?S. 1 - ?P i) = probabilities ! unat j * of_nat (unat n)"
        by (simp only:)
      ultimately show ?thesis
        by (simp only:)
    next
      case False
      have "?S' = ?S"
        using sent False ne_sent [OF j] by (auto simp: nth(7))
      then have "(\<Sum>i\<in>?S'. 1 - ?P' i) = (\<Sum>i\<in>?S. 1 - ?P i)"
        by (simp only: same)
      moreover from False have "?P' j = ?P j"
        by (simp only: Pj if_False)
      ultimately show ?thesis
        using old by (simp only:)
    qed
  qed
qed

lemma main_loop_sum_mass:
  "build_inv n st \<Longrightarrow> sum_inv st \<Longrightarrow> mass_inv probabilities n st \<Longrightarrow>
   sum_inv (main_loop st) \<and> mass_inv probabilities n (main_loop st)"
proof (induction st rule: main_loop.induct)
  case (1 st)
  show ?case
  proof (cases "small st \<noteq> [] \<and> large st \<noteq> []")
    case True
    then have ne: "small st \<noteq> []" "large st \<noteq> []"
      by simp_all
    from "1.prems"(1) ne have "build_inv n (main_body st)"
      by (rule main_body_inv)
    moreover from build_inv_worklists [OF "1.prems"(1)] ne "1.prems"(2) have "sum_inv (main_body st)"
      by (rule main_body_sum_inv)
    moreover from "1.prems"(1) ne "1.prems"(3) have "mass_inv probabilities n (main_body st)"
      by (rule main_body_mass_inv)
    ultimately have "sum_inv (main_loop (main_body st)) \<and>
        mass_inv probabilities n (main_loop (main_body st))"
      using True by (intro "1.IH") simp_all
    moreover from True have "main_loop st = main_loop (main_body st)"
      by (subst main_loop.simps) simp
    ultimately show ?thesis
      by simp
  next
    case False
    then have "main_loop st = st"
      by (subst main_loop.simps) auto
    with "1.prems" show ?thesis
      by simp
  qed
qed

lemma unat_bij: "bij_betw unat {j :: TIndex. j < n} {..<unat n}"
  unfolding bij_betw_def
proof
  show "inj_on unat {j :: TIndex. j < n}"
    by (rule inj_onI) (simp add: word_unat_eq_iff)
  show "unat ` {j :: TIndex. j < n} = {..<unat n}"
  proof (intro equalityI subsetI)
    fix k assume "k \<in> unat ` {j :: TIndex. j < n}"
    then show "k \<in> {..<unat n}"
      by (auto simp: word_less_nat_alt)
  next
    fix k assume "k \<in> {..<unat n}"
    then obtain i where "i < n" "unat i = k"
      using nat_index [of k n] by auto
    then show "k \<in> unat ` {j :: TIndex. j < n}"
      by auto
  qed
qed

lemma sum_word_nat:
  "(\<Sum>j | j < n. f (unat j)) = (\<Sum>k<unat (n :: TIndex). f k)"
  by (rule sum.reindex_bij_betw [OF unat_bij])

lemma card_word_less: "card {j :: TIndex. j < n} = unat n"
  using bij_betw_same_card [OF unat_bij [of n]] by simp

lemma init_inv_worklist: "init_inv probabilities n n st \<Longrightarrow> worklist st = {j. j < n}"
  by (auto simp: init_inv_def worklist_def)

lemma init_inv_sum_inv:
  assumes inv: "init_inv probabilities n n st" and len: "length probabilities = unat n"
    and one: "sum_list probabilities = 1"
  shows "sum_inv st"
proof -
  have "(\<Sum>i | i < n. tableProbs st ! unat i) =
      (\<Sum>i | i < n. probabilities ! unat i * of_nat (unat n))"
    using inv by (intro sum.cong) (simp_all add: init_inv_def)
  also have "\<dots> = (\<Sum>k<unat n. probabilities ! k * of_nat (unat n))"
    by (rule sum_word_nat)
  also have "\<dots> = (\<Sum>k<unat n. probabilities ! k) * of_nat (unat n)"
    by (simp only: sum_distrib_right)
  also have "(\<Sum>k<unat n. probabilities ! k) = sum_list probabilities"
    by (simp only: sum_list_sum_nth len atLeast0LessThan)
  finally have "(\<Sum>i | i < n. tableProbs st ! unat i) = of_nat (unat n)"
    by (simp only: one mult_1)
  then show ?thesis
    by (simp only: sum_inv_def init_inv_worklist [OF inv] card_word_less)
qed

lemma init_inv_mass_inv:
  assumes inv: "init_inv probabilities n n st"
  shows "mass_inv probabilities n st"
  unfolding mass_inv_def
proof (intro allI impI)
  fix j assume j: "j < n"
  then have "j \<noteq> NOT 0"
    by auto
  with inv have e: "{i. i < n \<and> tableAliases st ! unat i = j} = {}"
    by (auto simp: init_inv_def)
  from inv j have "tableProbs st ! unat j = probabilities ! unat j * of_nat (unat n)"
    by (simp add: init_inv_def del: of_nat_unat)
  then show "tableProbs st ! unat j +
      (\<Sum>i | i < n \<and> tableAliases st ! unat i = j. 1 - tableProbs st ! unat i)
      = probabilities ! unat j * of_nat (unat n)"
    by (simp only: e sum.empty add_0_right)
qed

lemma exit_worklist_one:
  assumes inv: "build_inv n st" and sum: "sum_inv st"
    and ex: "small st = [] \<or> large st = []"
  shows "\<forall>i\<in>worklist st. tableProbs st ! unat i = 1"
proof -
  let ?P = "\<lambda>i. tableProbs st ! unat i"
  define W where "W = worklist st"
  have fin: "finite W"
    by (simp add: W_def worklist_def)
  from sum have eq: "sum ?P W = (\<Sum>i\<in>W. 1)"
    by (simp add: sum_inv_def W_def)
  from ex show ?thesis
  proof
    assume "small st = []"
    with inv have ge: "\<forall>i\<in>W. 1 \<le> ?P i"
      by (simp add: build_inv_def W_def worklist_def)
    from eq have "(\<Sum>i\<in>W. ?P i - 1) = 0"
      by (simp add: sum_subtractf)
    moreover from ge have "\<forall>i\<in>W. 0 \<le> ?P i - 1"
      by simp
    ultimately have "\<forall>i\<in>W. ?P i - 1 = 0"
      using fin by (simp add: sum_nonneg_eq_0_iff)
    then show ?thesis
      by (simp add: W_def)
  next
    assume "large st = []"
    with inv have lt: "\<forall>i\<in>W. ?P i < 1"
      by (simp add: build_inv_def W_def worklist_def)
    have "W = {}"
    proof (rule ccontr)
      assume "W \<noteq> {}"
      with fin lt have "sum ?P W < (\<Sum>i\<in>W. 1)"
        by (intro sum_strict_mono) simp_all
      with eq show False
        by simp
    qed
    then show ?thesis
      by (simp add: W_def)
  qed
qed

lemma BuildAliasTable_mass_word:
  assumes pmf: "valid_pmf probabilities n" and lo: "length outProbs = unat n"
    "length outAliases = unat n"
  shows "\<exists>tP tA. BuildAliasTable probabilities n outProbs outAliases = Inr (tP, tA) \<and>
     length tP = unat n \<and> length tA = unat n \<and> (\<forall>i<n. tP ! unat i \<le> 1) \<and>
     (\<forall>j<n. tP ! unat j + (\<Sum>i | i < n \<and> tA ! unat i = j. 1 - tP ! unat i)
        = probabilities ! unat j * of_nat (unat n))"
proof -
  from pmf have len: "length probabilities = unat n" and nn: "\<forall>p\<in>set probabilities. 0 \<le> p"
    and one: "sum_list probabilities = 1"
    by (simp_all add: valid_pmf_def)
  from len lo nn obtain st1 st2 :: "'a build_state" and tP where
    i1: "init_inv probabilities n n st1" and st2: "st2 = main_loop st1"
    and inv2: "build_inv n st2"
    and b: "BuildAliasTable probabilities n outProbs outAliases = Inr (tP, tableAliases st2)"
    and l: "length tP = unat n"
    and P: "\<And>i. i < n \<Longrightarrow> tP ! unat i = (if i \<in> worklist st2 then 1 else tableProbs st2 ! unat i)"
    by (rule BuildAliasTable_char) blast
  from i1 len nn have inv1: "build_inv n st1"
    by (rule init_inv_build_inv)
  from inv1 init_inv_sum_inv [OF i1 len one] init_inv_mass_inv [OF i1]
  have "sum_inv st2 \<and> mass_inv probabilities n st2"
    unfolding st2 by (rule main_loop_sum_mass)
  then have s2: "sum_inv st2" and m2: "mass_inv probabilities n st2"
    by simp_all
  have "small st2 = [] \<or> large st2 = []"
    unfolding st2 by (rule main_loop_exit)
  with inv2 s2 have w1: "\<forall>i\<in>worklist st2. tableProbs st2 ! unat i = 1"
    by (rule exit_worklist_one)
  have same: "tP ! unat i = tableProbs st2 ! unat i" if "i < n" for i
    using P [OF that] w1 by simp
  have le: "tP ! unat i \<le> 1" if "i < n" for i
    using that inv2 w1 same [OF that] by (cases "i \<in> worklist st2") (auto simp: build_inv_def)
  have "tP ! unat j + (\<Sum>i | i < n \<and> tableAliases st2 ! unat i = j. 1 - tP ! unat i)
      = probabilities ! unat j * of_nat (unat n)" if j: "j < n" for j
  proof -
    have "(\<Sum>i | i < n \<and> tableAliases st2 ! unat i = j. 1 - tP ! unat i) =
        (\<Sum>i | i < n \<and> tableAliases st2 ! unat i = j. 1 - tableProbs st2 ! unat i)"
      by (rule sum.cong) (simp_all add: same)
    with m2 j show ?thesis
      by (simp only: same [OF j] mass_inv_def)
  qed
  moreover from inv2 have "length (tableAliases st2) = unat n"
    by (simp add: build_inv_def)
  ultimately show ?thesis
    using b l le by blast
qed

lemma outcome_mass_word:
  "outcome_mass tP tA n (unat j) =
     tP ! unat j + (\<Sum>i | i < n \<and> tA ! unat i = j. 1 - tP ! unat i)"
proof -
  let ?g = "\<lambda>k. if tA ! k = j then 1 - tP ! k else 0"
  have "(\<Sum>i\<leftarrow>[0..<unat n]. ?g i) = (\<Sum>k<unat n. ?g k)"
    by (simp only: interv_sum_list_conv_sum_set_nat set_upt atLeast0LessThan)
  also have "\<dots> = (\<Sum>i | i < n. ?g (unat i))"
    by (rule sum_word_nat [symmetric])
  also have "\<dots> = (\<Sum>i\<in>{i \<in> {i. i < n}. tA ! unat i = j}. 1 - tP ! unat i)"
    by (rule sum.inter_filter [symmetric]) simp
  also have "{i \<in> {i. i < n}. tA ! unat i = j} = {i. i < n \<and> tA ! unat i = j}"
    by auto
  finally show ?thesis
    by (simp add: outcome_mass_def)
qed

lemma outcome_mass_example:
  "outcome_mass [1 / 5, 1 :: real] [1, NOT 0] 2 0 = 1 / 5"
  "outcome_mass [1 / 5, 1 :: real] [1, NOT 0] 2 1 = 9 / 5"
  by (simp_all add: outcome_mass_def upt_rec)

subsection \<open>The sampler on a built table\<close>

lemma main_loop_small_Nil: "small st = [] \<Longrightarrow> main_loop st = st"
  by (subst main_loop.simps) simp

lemma BuildAliasTable_uniform:
  assumes n: "1 \<le> n" and lo: "length outProbs = unat n" "length outAliases = unat n"
  shows "BuildAliasTable (replicate (unat n) (1 / of_nat (unat n) :: 'a::linordered_field)) n
      outProbs outAliases =
     Inr (replicate (unat n) 1, replicate (unat n) (NOT 0))"
proof -
  let ?ps = "replicate (unat n) (1 / of_nat (unat n) :: 'a)"
  from n have pos: "0 < unat n"
    by (simp add: word_le_nat_alt)
  then have nz: "(of_nat (unat n) :: 'a) \<noteq> 0"
    by (simp only: of_nat_eq_0_iff)
  have len: "length ?ps = unat n"
    by simp
  have nn: "\<forall>p\<in>set ?ps. 0 \<le> p"
    by (simp del: of_nat_unat)
  from len lo nn obtain st1 st2 :: "'a build_state" and tP where
    i1: "init_inv ?ps n n st1" and st2: "st2 = main_loop st1"
    and b: "BuildAliasTable ?ps n outProbs outAliases = Inr (tP, tableAliases st2)"
    and l: "length tP = unat n"
    and P: "\<And>i. i < n \<Longrightarrow> tP ! unat i = (if i \<in> worklist st2 then 1 else tableProbs st2 ! unat i)"
    by (rule BuildAliasTable_char) blast
  have one: "tableProbs st1 ! unat j = 1" if "j < n" for j
  proof -
    from that have "unat j < unat n"
      by (simp add: word_less_nat_alt)
    then have "?ps ! unat j * of_nat (unat n) = 1"
      using nz by (simp del: of_nat_unat)
    with i1 that show ?thesis
      by (simp add: init_inv_def del: of_nat_unat)
  qed
  from i1 have "set (small st1) = {j. j < n \<and> tableProbs st1 ! unat j < 1}"
    by (simp add: init_inv_def)
  moreover have "{j. j < n \<and> tableProbs st1 ! unat j < 1} = {}"
    by (auto simp: one)
  ultimately have "small st1 = []"
    by simp
  then have same: "st2 = st1"
    unfolding st2 by (rule main_loop_small_Nil)
  have w: "worklist st1 = {j. j < n}"
    using i1 by (rule init_inv_worklist)
  have "tP = replicate (unat n) 1"
  proof (rule nth_equalityI)
    show "length tP = length (replicate (unat n) (1 :: 'a))"
      using l by simp
    fix k assume "k < length tP"
    with l obtain i where i: "i < n" "unat i = k"
      using nat_index [of k n] by auto
    with P [OF i(1)] l show "tP ! k = replicate (unat n) 1 ! k"
      by (simp add: same w word_less_nat_alt)
  qed
  moreover have "tableAliases st1 = replicate (unat n) (NOT 0)"
  proof (rule nth_equalityI)
    from i1 show la: "length (tableAliases st1) = length (replicate (unat n) (NOT 0 :: TIndex))"
      by (simp add: init_inv_def)
    fix k assume "k < length (tableAliases st1)"
    with la obtain i where i: "i < n" "unat i = k"
      using nat_index [of k n] by auto
    with i1 show "tableAliases st1 ! k = replicate (unat n) (NOT 0) ! k"
      by (auto simp: init_inv_def word_less_nat_alt)
  qed
  ultimately show ?thesis
    using b by (simp only: same)
qed

lemma valid_pmf_uniform:
  "1 \<le> n \<Longrightarrow> valid_pmf (replicate (unat n) (1 / of_nat (unat n) :: 'a::linordered_field)) n"
proof -
  assume "1 \<le> n"
  then have "0 < unat n"
    by (simp add: word_le_nat_alt)
  then have "(of_nat (unat n) :: 'a) \<noteq> 0"
    by (simp only: of_nat_eq_0_iff)
  with \<open>1 \<le> n\<close> show ?thesis
    by (simp add: valid_pmf_def sum_list_replicate del: of_nat_unat)
qed

lemma SampleAliasTable_in_range:
  assumes pmf: "valid_pmf probabilities n" and lo: "length outProbs = unat n"
    "length outAliases = unat n"
    and b: "BuildAliasTable probabilities n outProbs outAliases = Inr (tP, tA)"
    and u: "0 \<le> u" "u < 1" and bound: "unat n \<le> 2 ^ 31"
  shows "\<exists>r. SampleAliasTable u tP tA n = Inr r \<and> r < n \<and> r \<noteq> NOT 0 \<and>
     (let i = min (nat \<lfloor>of_nat (unat n) * u\<rfloor>) (unat n - 1);
          y = of_nat (unat n) * u - of_nat i
      in r = (if y < tP ! i then of_nat i else tA ! i))"
proof -
  define nx :: 'a where "nx = of_nat (unat n) * u"
  define c where "c = \<lfloor>nx\<rfloor>"
  define k where "k = nat c"
  define i :: TIndex where "i = of_nat k"
  from pmf have len: "length probabilities = unat n" and nn: "\<forall>p\<in>set probabilities. 0 \<le> p"
    and n: "0 < unat n"
    by (simp_all add: valid_pmf_def word_le_nat_alt)
  from n have pos: "(0 :: 'a) < of_nat (unat n)"
    by (simp only: of_nat_0_less_iff)
  from u(1) pos have nx0: "0 \<le> nx"
    unfolding nx_def by (intro mult_nonneg_nonneg) simp_all
  from u(2) pos have nxn: "nx < of_nat (unat n)"
    unfolding nx_def by (simp del: of_nat_unat)
  from nx0 have c0: "0 \<le> c"
    by (simp add: c_def)
  from nxn have "nx < of_int (int (unat n))"
    by (simp only: of_int_of_nat_eq)
  then have cn: "c < int (unat n)"
    by (simp only: c_def floor_less_iff)
  with c0 have kn: "k < unat n"
    by (simp only: k_def nat_less_iff)
  from c0 have kc: "int k = c"
    by (simp add: k_def)
  from bound have "int (unat n) \<le> 2 ^ 31"
    by (simp only: of_nat_le_iff [symmetric, where 'a = int] of_nat_power of_nat_numeral)
  with cn have "c < 2 ^ 31"
    by (rule less_le_trans)
  with c0 nx0 have cast: "static_cast_int nx = Some c"
    by (simp add: static_cast_int_def c_def Let_def)
  have wc: "(word_of_int c :: TIndex) = i"
    by (simp add: i_def flip: kc)
  from kn have ui: "unat i = k"
    unfolding i_def by (simp add: le_unat_uoi [of k n])
  with kn have i_lt: "i < n"
    by (simp add: word_less_nat_alt)
  have slot: "SampleAliasTable_slot u n = Inr i"
    using cast i_lt by (simp add: SampleAliasTable_slot_def Let_def wc flip: nx_def del: of_nat_unat)
  define y where "y = nx - of_nat k"
  have "of_nat k = (of_int c :: 'a)"
    by (simp flip: kc)
  then have y1: "y < 1"
    unfolding y_def c_def by linarith
  from BuildAliasTable_table [OF len lo nn] b obtain st :: "'a build_state" where
    l: "length tP = unat n" "length tA = unat n"
    and t: "\<forall>i<n. 0 \<le> tP ! unat i \<and> tP ! unat i \<le> 1 \<and>
        (if i \<in> worklist (main_loop st) then tA ! unat i = NOT 0 \<and> tP ! unat i = 1
         else tA ! unat i < n \<and> tA ! unat i \<noteq> NOT 0 \<and> tP ! unat i < 1)"
    by auto
  from t [rule_format, OF i_lt] have ti: "tP ! k \<le> 1"
    "if i \<in> worklist (main_loop st) then tA ! k = NOT 0 \<and> tP ! k = 1
     else tA ! k < n \<and> tA ! k \<noteq> NOT 0 \<and> tP ! k < 1"
    unfolding ui by blast+
  define r where "r = (if y < tP ! k then i else tA ! k)"
  have sample: "SampleAliasTable u tP tA n = Inr r"
    using kn l by (simp add: SampleAliasTable_def slot Let_def ui r_def y_def nx_def del: of_nat_unat)
  have "r < n \<and> r \<noteq> NOT 0"
  proof (cases "y < tP ! k")
    case True
    with i_lt show ?thesis
      by (auto simp: r_def)
  next
    case False
    with y1 have "tP ! k < 1"
      by simp
    with ti(2) have "tA ! k < n \<and> tA ! k \<noteq> NOT 0"
      by (simp split: if_splits)
    with False show ?thesis
      by (simp add: r_def)
  qed
  moreover from kn have "min k (unat n - 1) = k"
    by simp
  then have "(let i = min (nat \<lfloor>of_nat (unat n) * u\<rfloor>) (unat n - 1);
          y = of_nat (unat n) * u - of_nat i
      in r = (if y < tP ! i then of_nat i else tA ! i))"
    by (simp only: Let_def r_def y_def i_def nx_def [symmetric] c_def [symmetric] k_def [symmetric])
  ultimately show ?thesis
    using sample by blast
qed

subsection \<open>The tops of the heaps\<close>

lemma fold_select_max:
  fixes g :: "'i \<Rightarrow> 'a::linorder"
  shows "\<forall>x\<in>set (y # ys). g x \<le> g (fold (\<lambda>x m. if g m < g x then x else m) ys y)"
proof (induction ys arbitrary: y)
  case Nil
  show ?case by simp
next
  case (Cons z zs)
  show ?case
  proof (cases "g y < g z")
    case True
    with Cons [of z] show ?thesis
      by (auto intro: order_trans less_imp_le)
  next
    case False
    with Cons [of y] show ?thesis
      by (auto intro: order_trans simp: not_less)
  qed
qed

lemma fold_select_min:
  fixes g :: "'i \<Rightarrow> 'a::linorder"
  shows "\<forall>x\<in>set (y # ys). g (fold (\<lambda>x m. if g m > g x then x else m) ys y) \<le> g x"
proof (induction ys arbitrary: y)
  case Nil
  show ?case by simp
next
  case (Cons z zs)
  show ?case
  proof (cases "g y > g z")
    case True
    with Cons [of z] show ?thesis
      by (auto intro: order_trans less_imp_le)
  next
    case False
    with Cons [of y] show ?thesis
      by (auto intro: order_trans simp: not_less)
  qed
qed

lemma heap_select_max:
  "\<forall>i\<in>set h. P ! unat i \<le> P ! unat (heap_top (heap_select (WorklistEntryLess P) h))"
proof (cases h)
  case Nil
  then show ?thesis by simp
next
  case (Cons y ys)
  have "WorklistEntryLess P = (\<lambda>a b. P ! unat a < P ! unat b)"
    by (intro ext) (simp add: WorklistEntryLess_def)
  with fold_select_max [where g = "\<lambda>i. P ! unat i" and y = y and ys = ys] Cons show ?thesis
    by (simp add: Let_def del: set_simps remove1.simps)
qed

lemma heap_select_min:
  "\<forall>i\<in>set h. P ! unat (heap_top (heap_select (WorklistEntryGreater P) h)) \<le> P ! unat i"
proof (cases h)
  case Nil
  then show ?thesis by simp
next
  case (Cons y ys)
  have "WorklistEntryGreater P = (\<lambda>a b. P ! unat a > P ! unat b)"
    by (intro ext) (simp add: WorklistEntryGreater_def)
  with fold_select_min [where g = "\<lambda>i. P ! unat i" and y = y and ys = ys] Cons show ?thesis
    by (simp add: Let_def del: set_simps remove1.simps)
qed

lemma heap_push_max:
  "\<forall>i\<in>set h. P ! unat i \<le> P ! unat (heap_top h) \<Longrightarrow>
   \<forall>i\<in>set (heap_push (WorklistEntryLess P) x h).
      P ! unat i \<le> P ! unat (heap_top (heap_push (WorklistEntryLess P) x h))"
  by (cases h) (auto simp: WorklistEntryLess_def intro: order_trans less_imp_le)

lemma heap_push_min:
  "\<forall>i\<in>set h. P ! unat (heap_top h) \<le> P ! unat i \<Longrightarrow>
   \<forall>i\<in>set (heap_push (WorklistEntryGreater P) x h).
      P ! unat (heap_top (heap_push (WorklistEntryGreater P) x h)) \<le> P ! unat i"
  by (cases h) (auto simp: WorklistEntryGreater_def intro: order_trans less_imp_le)

lemma main_body_tops_inv:
  assumes inv: "worklists_inv n st" and ne: "small st \<noteq> []" "large st \<noteq> []"
  shows "tops_inv (main_body st)"
proof -
  obtain s S l L where sm: "small st = s # S" and lg: "large st = l # L"
    using ne by (cases "small st"; cases "large st") auto
  let ?P = "tableProbs st"
  define v where "v = (?P ! unat l + ?P ! unat s) - 1"
  define tP where "tP = ?P[unat l := v]"
  define small1 where "small1 = heap_select (WorklistEntryGreater ?P) S"
  define large1 where "large1 = heap_select (WorklistEntryLess ?P) L"
  from inv sm lg have out: "l \<notin> set S" "l \<notin> set L"
    and len: "length ?P = unat n" and l: "l < n"
    by (auto simp: worklists_inv_def worklist_def)
  from l len have lP: "unat l < length ?P"
    by (simp add: word_less_nat_alt)
  have keep: "tP ! unat i = ?P ! unat i" if "i \<noteq> l" for i
    using that by (simp add: tP_def word_unat_eq_iff)
  have top1: "heap_top small1 \<in> set S" if "S \<noteq> []"
    using that by (cases small1) (auto simp: small1_def dest: arg_cong [where f = set])
  have top2: "heap_top large1 \<in> set L" if "L \<noteq> []"
    using that by (cases large1) (auto simp: large1_def dest: arg_cong [where f = set])
  have s1: "\<forall>i\<in>set small1. tP ! unat (heap_top small1) \<le> tP ! unat i"
  proof (cases "S = []")
    case True
    then show ?thesis by (simp add: small1_def)
  next
    case False
    from heap_select_min [of S ?P] have "\<forall>i\<in>set S. ?P ! unat (heap_top small1) \<le> ?P ! unat i"
      by (simp add: small1_def)
    moreover from top1 [OF False] out have "heap_top small1 \<noteq> l"
      by auto
    moreover have "i \<noteq> l" if "i \<in> set S" for i
      using that out by auto
    moreover have "set small1 = set S"
      by (simp add: small1_def)
    ultimately show ?thesis
      by (simp add: keep)
  qed
  have l1: "\<forall>i\<in>set large1. tP ! unat i \<le> tP ! unat (heap_top large1)"
  proof (cases "L = []")
    case True
    then show ?thesis by (simp add: large1_def)
  next
    case False
    from heap_select_max [of L ?P] have "\<forall>i\<in>set L. ?P ! unat i \<le> ?P ! unat (heap_top large1)"
      by (simp add: large1_def)
    moreover from top2 [OF False] out have "heap_top large1 \<noteq> l"
      by auto
    moreover have "i \<noteq> l" if "i \<in> set L" for i
      using that out by auto
    moreover have "set large1 = set L"
      by (simp add: large1_def)
    ultimately show ?thesis
      by (simp add: keep)
  qed
  show ?thesis
  proof (cases "tP ! unat l < 1")
    case True
    then have "main_body st = \<lparr>tableProbs = tP, tableAliases = (tableAliases st)[unat s := l],
        small = heap_push (WorklistEntryGreater tP) l small1, large = large1\<rparr>"
      by (simp add: main_body_def sm lg Let_def tP_def v_def small1_def large1_def)
    with heap_push_min [OF s1, of l] l1 show ?thesis
      by (simp add: tops_inv_def)
  next
    case False
    then have "main_body st = \<lparr>tableProbs = tP, tableAliases = (tableAliases st)[unat s := l],
        small = small1, large = heap_push (WorklistEntryLess tP) l large1\<rparr>"
      by (simp add: main_body_def sm lg Let_def tP_def v_def small1_def large1_def)
    with heap_push_max [OF l1, of l] s1 show ?thesis
      by (simp add: tops_inv_def)
  qed
qed

lemma heap_top_in: "h \<noteq> [] \<Longrightarrow> heap_top h \<in> set h"
  by (cases h) simp_all

lemma init_body_tops_inv:
  assumes inv: "init_inv probabilities n i st" and i: "i < n" and tops: "tops_inv st"
    and b: "init_body probabilities n i st = Inr st'"
  shows "tops_inv st'"
proof -
  let ?P = "tableProbs st"
  define tP where "tP = ?P[unat i := probabilities ! unat i * of_nat (unat n)]"
  define tA where "tA = (tableAliases st)[unat i := NOT 0]"
  from inv have out: "i \<notin> set (small st)" "i \<notin> set (large st)"
    by (simp_all add: init_inv_def)
  have keep: "tP ! unat j = ?P ! unat j" if "j \<noteq> i" for j
    using that by (simp add: tP_def word_unat_eq_iff)
  have s1: "\<forall>j\<in>set (small st). tP ! unat (heap_top (small st)) \<le> tP ! unat j"
  proof (cases "small st = []")
    case True
    then show ?thesis by simp
  next
    case False
    from heap_top_in [OF False] out have "heap_top (small st) \<noteq> i"
      by auto
    moreover have "j \<noteq> i" if "j \<in> set (small st)" for j
      using that out by auto
    ultimately show ?thesis
      using tops by (simp add: keep tops_inv_def)
  qed
  have l1: "\<forall>j\<in>set (large st). tP ! unat j \<le> tP ! unat (heap_top (large st))"
  proof (cases "large st = []")
    case True
    then show ?thesis by simp
  next
    case False
    from heap_top_in [OF False] out have "heap_top (large st) \<noteq> i"
      by auto
    moreover have "j \<noteq> i" if "j \<in> set (large st)" for j
      using that out by auto
    ultimately show ?thesis
      using tops by (simp add: keep tops_inv_def)
  qed
  show ?thesis
  proof (cases "tP ! unat i < 1")
    case True
    with b have "st' = \<lparr>tableProbs = tP, tableAliases = tA,
        small = heap_push (WorklistEntryGreater tP) i (small st), large = large st\<rparr>"
      by (auto simp: init_body_def Let_def tP_def tA_def split: if_splits)
    with heap_push_min [OF s1, of i] l1 show ?thesis
      by (simp add: tops_inv_def)
  next
    case False
    with b have "st' = \<lparr>tableProbs = tP, tableAliases = tA,
        small = small st, large = heap_push (WorklistEntryLess tP) i (large st)\<rparr>"
      by (auto simp: init_body_def Let_def tP_def tA_def split: if_splits)
    with heap_push_max [OF l1, of i] s1 show ?thesis
      by (simp add: tops_inv_def)
  qed
qed

lemma init_loop_tops_inv:
  "init_inv probabilities n i st \<Longrightarrow> i \<le> n \<Longrightarrow> length probabilities = unat n \<Longrightarrow>
   tops_inv st \<Longrightarrow> init_loop probabilities n i st = Inr st' \<Longrightarrow> tops_inv st'"
proof (induction probabilities n i st rule: init_loop.induct)
  case (1 probabilities n i st)
  show ?case
  proof (cases "i < n")
    case True
    with "1.prems" obtain st1 where b: "init_body probabilities n i st = Inr st1"
      and inv1: "init_inv probabilities n (i + 1) st1"
      using init_body_inv by blast
    from "1.prems"(1) True "1.prems"(4) b have t1: "tops_inv st1"
      by (rule init_body_tops_inv)
    from True have le: "i + 1 \<le> n"
      by (rule inc_le)
    from "1.prems"(5) True b have "init_loop probabilities n (i + 1) st1 = Inr st'"
      by (subst (asm) init_loop.simps) simp
    with "1.IH" [OF True b inv1 le "1.prems"(3) t1] show ?thesis
      by simp
  next
    case False
    with "1.prems"(5) have "st' = st"
      by (subst (asm) init_loop.simps) simp
    with "1.prems"(4) show ?thesis
      by simp
  qed
qed

text \<open>
  The note at lines 18 to 20: with \<open>st\<close> the state after the first loop, before every run
  of the body of the main loop (and at its exit) the top of \<open>small\<close> has the least entry of
  \<open>tableProbs\<close> among the indices in \<open>small\<close>, and the top of \<open>large\<close> the greatest among
  those in \<open>large\<close>.
\<close>

lemma worklist_tops_extreme:
  assumes len: "length probabilities = unat n" "length outProbs = unat n"
    "length outAliases = unat n"
    and i: "init_state probabilities n outProbs outAliases = Inr st"
    and k: "k \<le> main_loop_iterations st"
  shows "tops_inv ((main_body ^^ k) st)"
  using k
proof (induction k)
  case 0
  let ?st0 = "\<lparr>tableProbs = outProbs, tableAliases = outAliases, small = [], large = []\<rparr>"
  have a0: "init_inv probabilities n 0 ?st0"
    using len by (simp add: init_inv_def)
  have t0: "tops_inv ?st0"
    by (simp add: tops_inv_def)
  from i have e0: "init_loop probabilities n 0 ?st0 = Inr st"
    by (simp only: init_state_def)
  have "tops_inv st"
    by (rule init_loop_tops_inv [OF a0 _ len(1) t0 e0]) simp
  then show ?case
    by simp
next
  case (Suc k)
  let ?sk = "(main_body ^^ k) st"
  from len i obtain st1 where "init_state probabilities n outProbs outAliases = Inr st1"
    "init_inv probabilities n n st1"
    using init_state_inv by blast
  with i have "worklists_inv n st"
    using init_inv_worklists by auto
  with Suc.prems have inv: "worklists_inv n ?sk"
    by (simp add: funpow_worklists)
  from Suc.prems have "0 < main_loop_iterations ?sk"
    by (simp add: main_loop_iterations_funpow)
  then have "small ?sk \<noteq> []" "large ?sk \<noteq> []"
    by (simp_all add: main_loop_iterations_pos)
  with inv have "tops_inv (main_body ?sk)"
    by (rule main_body_tops_inv)
  then show ?case
    by simp
qed

subsection \<open>The functions at \<^verbatim>\<open>T = float\<close>\<close>

text \<open>
  Evaluation of the rounding, the slot of the rounded sampler, and the functions with the
  identity as rounding, which are the functions with exact arithmetic.
\<close>

lemma round_significand_numeral:
  "round_significand (numeral k) x =
     (if x = 0 then 0
      else if 2 ^ 24 \<le> \<bar>x\<bar> then 2 * round_significand (pred_numeral k) (x / 2)
      else if \<bar>x\<bar> < 2 ^ 23 then round_significand (pred_numeral k) (2 * x) / 2
      else of_int (round_ties_even x))"
  by (simp add: numeral_eq_Suc)

lemmas binary32_eval = binary32_def round_significand_numeral round_ties_even_def Let_def

lemmas build_rounded_eval =
  BuildAliasTable_rounded_def init_loop_rounded.simps init_body_rounded_def
  main_loop_rounded.simps main_body_rounded_def drain_small.simps drain_large.simps
  WorklistEntryLess_def WorklistEntryGreater_def

lemmas sample_rounded_eval =
  SampleAliasTable_rounded_def SampleAliasTable_square_histogram_rounded_def
  SampleAliasTable_slot_rounded_def static_cast_int_def

lemma rounded_identity_sampler:
  "SampleAliasTable_slot_rounded (\<lambda>x. x) u n = SampleAliasTable_slot u n"
  "SampleAliasTable_rounded (\<lambda>x. x) u tP tA n = SampleAliasTable u tP tA n"
  "SampleAliasTable_square_histogram_rounded (\<lambda>x. x) u tP tA n =
     SampleAliasTable_square_histogram u tP tA n"
  by (simp_all only: SampleAliasTable_slot_rounded_def SampleAliasTable_slot_def
      SampleAliasTable_rounded_def SampleAliasTable_def
      SampleAliasTable_square_histogram_rounded_def SampleAliasTable_square_histogram_def)

lemma init_loop_rounded_identity:
  "init_loop_rounded (\<lambda>x. x) probabilities n i st = init_loop probabilities n i st"
proof (induction probabilities n i st rule: init_loop.induct)
  case (1 probabilities n i st)
  have b: "init_body_rounded (\<lambda>x. x) probabilities n i st = init_body probabilities n i st"
    by (simp only: init_body_rounded_def init_body_def)
  show ?case
  proof (cases "i < n")
    case True
    with "1.IH" show ?thesis
      by (subst init_loop_rounded.simps, subst init_loop.simps) (simp add: b split: sum.split)
  next
    case False
    then show ?thesis
      by (subst init_loop_rounded.simps, subst init_loop.simps) simp
  qed
qed

lemma main_loop_rounded_identity: "main_loop_rounded (\<lambda>x. x) st = main_loop st"
proof (induction st rule: main_loop.induct)
  case (1 st)
  have b: "main_body_rounded (\<lambda>x. x) st = main_body st"
    by (simp only: main_body_rounded_def main_body_def)
  show ?case
  proof (cases "small st \<noteq> [] \<and> large st \<noteq> []")
    case True
    with "1.IH" show ?thesis
      by (subst main_loop_rounded.simps, subst main_loop.simps) (simp add: b)
  next
    case False
    then show ?thesis
      by (subst main_loop_rounded.simps, subst main_loop.simps) auto
  qed
qed

lemma BuildAliasTable_rounded_identity:
  "BuildAliasTable_rounded (\<lambda>x. x) probabilities n outProbs outAliases =
     BuildAliasTable probabilities n outProbs outAliases"
  by (simp only: BuildAliasTable_rounded_def BuildAliasTable_def init_state_def
      init_loop_rounded_identity main_loop_rounded_identity)

lemma SampleAliasTable_slot_rounded_cases:
  assumes "1 \<le> n" and "SampleAliasTable_slot_rounded rnd u n = Inr i"
  shows "unat i < unat n"
proof -
  from assms(1) have n: "0 < unat n" "unat (n - 1) = unat n - 1"
    by (simp_all add: word_le_nat_alt unat_minus_1)
  from assms(2) obtain c where "i = (if (word_of_int c :: TIndex) < n then word_of_int c else n - 1)"
    by (auto simp: SampleAliasTable_slot_rounded_def Let_def split: option.splits)
  with n show "unat i < unat n"
    by (auto simp: word_less_nat_alt)
qed

subsection \<open>Examples\<close>

lemma drain_forces_one_example:
  "init_state [3 / 4, 3 / 4 :: real] 2 [0, 0] [0, 0] =
     Inr \<lparr>tableProbs = [3 / 2, 3 / 2], tableAliases = [NOT 0, NOT 0], small = [], large = [0, 1]\<rparr>"
  "main_loop \<lparr>tableProbs = [3 / 2, 3 / 2 :: real], tableAliases = [NOT 0, NOT 0],
     small = [], large = [0, 1]\<rparr> =
     \<lparr>tableProbs = [3 / 2, 3 / 2], tableAliases = [NOT 0, NOT 0], small = [], large = [0, 1]\<rparr>"
  "BuildAliasTable [3 / 4, 3 / 4 :: real] 2 [0, 0] [0, 0] = Inr ([1, 1], [NOT 0, NOT 0])"
  "init_state [1 / 4, 1 / 4 :: real] 2 [0, 0] [0, 0] =
     Inr \<lparr>tableProbs = [1 / 2, 1 / 2], tableAliases = [NOT 0, NOT 0], small = [0, 1], large = []\<rparr>"
  "BuildAliasTable [1 / 4, 1 / 4 :: real] 2 [0, 0] [0, 0] = Inr ([1, 1], [NOT 0, NOT 0])"
  by (simp_all add: build_eval)

lemma SampleAliasTable_slot_example:
  "SampleAliasTable_slot (2 :: real) 2 = Inr 1"
  "SampleAliasTable (2 :: real) [1 / 5, 1] [1, NOT 0] 2 = Inr (NOT 0)"
  "SampleAliasTable_slot (2147483648 :: real) 1 = Inl IntConversionOverflow"
  by (simp_all add: sample_eval)

section \<open>The claims\<close>

text \<open>
  C1, as amended. After a successful build on a probability mass function that satisfies
  the preconditions, the mass that the table gives to an outcome \<open>j\<close>, that is
  \<open>tableProbs[j]\<close> plus the sum of \<open>1 - tableProbs[i]\<close> over the slots \<open>i\<close> whose alias
  is \<open>j\<close> (\<open>outcome_mass\<close>), is \<open>n * probabilities[j]\<close>; so the arithmetic mean of these
  masses over the outcomes is 1. The mean of \<open>tableProbs\<close> itself is at most 1.
\<close>

theorem BuildAliasTable_outcome_mass:
  assumes "valid_pmf probabilities n" and "length outProbs = unat n"
    and "length outAliases = unat n"
  shows "\<exists>tP tA. BuildAliasTable probabilities n outProbs outAliases = Inr (tP, tA) \<and>
     length tP = unat n \<and> length tA = unat n \<and>
     (\<forall>j<unat n. outcome_mass tP tA n j = probabilities ! j * of_nat (unat n)) \<and>
     (\<Sum>j\<leftarrow>[0..<unat n]. outcome_mass tP tA n j) / of_nat (unat n) = 1 \<and>
     sum_list tP / of_nat (unat n) \<le> 1"
proof -
  from assms(1) have len: "length probabilities = unat n" and one: "sum_list probabilities = 1"
    and n: "0 < unat n"
    by (simp_all add: valid_pmf_def word_le_nat_alt)
  from n have pos: "(0 :: 'a) < of_nat (unat n)"
    by (simp only: of_nat_0_less_iff)
  from BuildAliasTable_mass_word [OF assms] obtain tP tA where
    b: "BuildAliasTable probabilities n outProbs outAliases = Inr (tP, tA)"
    and l: "length tP = unat n" "length tA = unat n"
    and le: "\<forall>i<n. tP ! unat i \<le> 1"
    and m: "\<forall>j<n. tP ! unat j + (\<Sum>i | i < n \<and> tA ! unat i = j. 1 - tP ! unat i)
        = probabilities ! unat j * of_nat (unat n)"
    by blast
  have mass: "outcome_mass tP tA n k = probabilities ! k * of_nat (unat n)" if "k < unat n" for k
  proof -
    from that obtain j where j: "j < n" "unat j = k"
      using nat_index by blast
    from m j(1) have "outcome_mass tP tA n (unat j) = probabilities ! unat j * of_nat (unat n)"
      by (simp only: outcome_mass_word)
    then show ?thesis
      by (simp only: j(2))
  qed
  have "(\<Sum>j\<leftarrow>[0..<unat n]. outcome_mass tP tA n j) = (\<Sum>k<unat n. outcome_mass tP tA n k)"
    by (simp only: interv_sum_list_conv_sum_set_nat set_upt atLeast0LessThan)
  also have "\<dots> = (\<Sum>k<unat n. probabilities ! k * of_nat (unat n))"
    by (rule sum.cong) (simp_all only: mass lessThan_iff)
  also have "\<dots> = (\<Sum>k<unat n. probabilities ! k) * of_nat (unat n)"
    by (simp only: sum_distrib_right)
  also have "(\<Sum>k<unat n. probabilities ! k) = sum_list probabilities"
    by (simp only: sum_list_sum_nth len atLeast0LessThan)
  finally have total: "(\<Sum>j\<leftarrow>[0..<unat n]. outcome_mass tP tA n j) = of_nat (unat n)"
    by (simp only: one mult_1)
  have "tP ! k \<le> 1" if "k < unat n" for k
  proof -
    from that obtain j where "j < n" "unat j = k"
      using nat_index by blast
    with le show ?thesis
      by auto
  qed
  then have "(\<Sum>k<unat n. tP ! k) \<le> (\<Sum>k<unat n. 1)"
    by (intro sum_mono) simp
  then have "sum_list tP \<le> of_nat (unat n)"
    by (simp only: sum_list_sum_nth l atLeast0LessThan sum_constant card_lessThan mult_1_right)
  with pos have "sum_list tP / of_nat (unat n) \<le> 1"
    by (simp only: divide_le_eq_1_pos)
  moreover from pos have "(\<Sum>j\<leftarrow>[0..<unat n]. outcome_mass tP tA n j) / of_nat (unat n) = 1"
    by (simp only: total) simp
  ultimately show ?thesis
    using b l mass by blast
qed

theorem BuildAliasTable_outcome_mass_witness:
  "valid_pmf [1 / 10, 9 / 10 :: real] 2 \<and> length [0, 0 :: real] = unat (2 :: TIndex) \<and>
   length [0, 0 :: TIndex] = unat (2 :: TIndex) \<and>
   (\<exists>tP tA. BuildAliasTable [1 / 10, 9 / 10 :: real] 2 [0, 0] [0, 0] = Inr (tP, tA) \<and>
     length tP = unat (2 :: TIndex) \<and> length tA = unat (2 :: TIndex) \<and>
     (\<forall>j<unat (2 :: TIndex).
        outcome_mass tP tA 2 j = [1 / 10, 9 / 10 :: real] ! j * of_nat (unat (2 :: TIndex))) \<and>
     (\<Sum>j\<leftarrow>[0..<unat (2 :: TIndex)]. outcome_mass tP tA 2 j) / of_nat (unat (2 :: TIndex)) = 1 \<and>
     sum_list tP / of_nat (unat (2 :: TIndex)) \<le> 1)"
proof -
  have h: "valid_pmf [1 / 10, 9 / 10 :: real] 2"
    by (simp add: valid_pmf_def)
  have l1: "length [0, 0 :: real] = unat (2 :: TIndex)"
    and l2: "length [0, 0 :: TIndex] = unat (2 :: TIndex)"
    by simp_all
  show ?thesis
    by (rule conjI [OF h conjI [OF l1 conjI [OF l2 BuildAliasTable_outcome_mass [OF h l1 l2]]]])
qed

text \<open>
  C1 as stated fails: for \<open>probabilities = [0.1, 0.9]\<close> the build returns
  \<open>tableProbs = [0.2, 1]\<close>, whose mean is \<open>0.6\<close>.
\<close>

theorem BuildAliasTable_mean_not_one:
  "valid_pmf [1 / 10, 9 / 10 :: real] 2 \<and>
   BuildAliasTable [1 / 10, 9 / 10 :: real] 2 [0, 0] [0, 0] = Inr ([1 / 5, 1], [1, NOT 0]) \<and>
   sum_list [1 / 5, 1 :: real] / of_nat (unat (2 :: TIndex)) = 3 / 5 \<and>
   sum_list [1 / 5, 1 :: real] / of_nat (unat (2 :: TIndex)) \<noteq> 1"
proof (intro conjI)
  show "valid_pmf [1 / 10, 9 / 10 :: real] 2"
    by (simp add: valid_pmf_def)
  show "BuildAliasTable [1 / 10, 9 / 10 :: real] 2 [0, 0] [0, 0] = Inr ([1 / 5, 1], [1, NOT 0])"
    by (simp add: build_eval)
qed simp_all

text \<open>
  C2. After a successful build on a probability mass function that satisfies the
  preconditions, every entry of \<open>tableProbs\<close> is between 0 and 1, and every entry of
  \<open>tableAliases\<close> is the sentinel \<open>NOT 0\<close> or an index below \<open>n\<close>. The build of
  such an input succeeds.
\<close>

theorem BuildAliasTable_range:
  assumes "valid_pmf probabilities n" and "length outProbs = unat n"
    and "length outAliases = unat n"
  shows "\<exists>tP tA. BuildAliasTable probabilities n outProbs outAliases = Inr (tP, tA) \<and>
     length tP = unat n \<and> length tA = unat n \<and>
     (\<forall>i<unat n. 0 \<le> tP ! i \<and> tP ! i \<le> 1 \<and> (tA ! i = NOT 0 \<or> tA ! i < n))"
proof -
  from assms(1) have pmf: "length probabilities = unat n" "\<forall>p\<in>set probabilities. 0 \<le> p"
    by (simp_all add: valid_pmf_def)
  obtain st :: "'a build_state" and tP tA where
    b: "BuildAliasTable probabilities n outProbs outAliases = Inr (tP, tA)"
    and l: "length tP = unat n" "length tA = unat n"
    and t: "\<forall>i<n. 0 \<le> tP ! unat i \<and> tP ! unat i \<le> 1 \<and>
        (if i \<in> worklist (main_loop st) then tA ! unat i = NOT 0 \<and> tP ! unat i = 1
         else tA ! unat i < n \<and> tA ! unat i \<noteq> NOT 0 \<and> tP ! unat i < 1)"
    using BuildAliasTable_table [OF pmf(1) assms(2,3) pmf(2)] by blast
  have "0 \<le> tP ! k \<and> tP ! k \<le> 1 \<and> (tA ! k = NOT 0 \<or> tA ! k < n)" if "k < unat n" for k
  proof -
    from that obtain i where "i < n" "unat i = k"
      using nat_index by blast
    with t [rule_format, of i] show ?thesis
      by (auto split: if_splits)
  qed
  with b l show ?thesis
    by blast
qed

theorem BuildAliasTable_range_witness:
  "valid_pmf [1 / 10, 9 / 10 :: real] 2 \<and> length [0, 0 :: real] = unat (2 :: TIndex) \<and>
   length [0, 0 :: TIndex] = unat (2 :: TIndex) \<and>
   (\<exists>tP tA. BuildAliasTable [1 / 10, 9 / 10 :: real] 2 [0, 0] [0, 0] = Inr (tP, tA) \<and>
      length tP = unat (2 :: TIndex) \<and> length tA = unat (2 :: TIndex) \<and>
      (\<forall>i<unat (2 :: TIndex). 0 \<le> tP ! i \<and> tP ! i \<le> 1 \<and> (tA ! i = NOT 0 \<or> tA ! i < 2)))"
proof -
  have h: "valid_pmf [1 / 10, 9 / 10 :: real] 2"
    by (simp add: valid_pmf_def)
  have l1: "length [0, 0 :: real] = unat (2 :: TIndex)"
    and l2: "length [0, 0 :: TIndex] = unat (2 :: TIndex)"
    by simp_all
  show ?thesis
    by (rule conjI [OF h conjI [OF l1 conjI [OF l2 BuildAliasTable_range [OF h l1 l2]]]])
qed

text \<open>
  C3. After a successful build on non-negative weights, an entry of \<open>tableAliases\<close> that
  is the sentinel has the entry 1 in \<open>tableProbs\<close>. With \<open>st\<close> the state after the first
  loop, every index that is still in a worklist when the main loop ends
  (\<open>worklist (main_loop st)\<close>) has its entry of \<open>tableProbs\<close> set to 1 by the two last
  loops, whatever it was, and keeps the sentinel as alias; the other entries and all the
  aliases are those at the end of the main loop. The weights need not sum to 1: when they
  do, the entries left in the worklists are 1 already (\<open>exit_worklist_one\<close>), and for
  \<open>[3/4, 3/4]\<close> and \<open>[1/4, 1/4]\<close> the two last loops turn \<open>3/2\<close> and \<open>1/2\<close> into 1
  (\<open>drain_forces_one_example\<close>).
\<close>

theorem BuildAliasTable_no_alias_full_mass:
  assumes "length probabilities = unat n" and "\<forall>p\<in>set probabilities. 0 \<le> p"
    and "length outProbs = unat n" and "length outAliases = unat n"
  shows "\<exists>st tP tA. init_state probabilities n outProbs outAliases = Inr st \<and>
     BuildAliasTable probabilities n outProbs outAliases = Inr (tP, tA) \<and>
     (\<forall>i<unat n. tA ! i = NOT 0 \<longrightarrow> tP ! i = 1) \<and>
     (\<forall>i\<in>worklist (main_loop st). unat i < unat n \<and> tP ! unat i = 1 \<and> tA ! unat i = NOT 0) \<and>
     (\<forall>i<n. i \<notin> worklist (main_loop st) \<longrightarrow> tP ! unat i = tableProbs (main_loop st) ! unat i) \<and>
     tA = tableAliases (main_loop st)"
proof -
  from assms(1,3,4,2) obtain st st2 :: "'a build_state" and tP where
    i: "init_state probabilities n outProbs outAliases = Inr st" and st2: "st2 = main_loop st"
    and inv: "build_inv n st2"
    and b: "BuildAliasTable probabilities n outProbs outAliases = Inr (tP, tableAliases st2)"
    and P: "\<And>i. i < n \<Longrightarrow> tP ! unat i = (if i \<in> worklist st2 then 1 else tableProbs st2 ! unat i)"
    by (rule BuildAliasTable_char) blast
  have a: "if i \<in> worklist st2 then tableAliases st2 ! unat i = NOT 0
      else tableAliases st2 ! unat i < n \<and> tableProbs st2 ! unat i < 1" if "i < n" for i
    using inv that by (simp add: build_inv_def)
  have w: "i < n" if "i \<in> worklist st2" for i
    using inv that by (auto simp: build_inv_def worklist_def)
  have "tP ! k = 1" if "k < unat n" "tableAliases st2 ! k = NOT 0" for k
  proof -
    from that(1) obtain i where k: "i < n" "unat i = k"
      using nat_index by blast
    show ?thesis
    proof (cases "i \<in> worklist st2")
      case True
      with P [OF k(1)] k(2) show ?thesis
        by simp
    next
      case False
      with a [OF k(1)] have "tableAliases st2 ! unat i < n"
        by simp
      then have "tableAliases st2 ! unat i \<noteq> NOT 0"
        by auto
      with that(2) k(2) show ?thesis
        by simp
    qed
  qed
  moreover have "unat i < unat n \<and> tP ! unat i = 1 \<and> tableAliases st2 ! unat i = NOT 0"
    if "i \<in> worklist st2" for i
    using that w [OF that] P [OF w [OF that]] a [OF w [OF that]] by (simp add: word_less_nat_alt)
  moreover have "tP ! unat i = tableProbs st2 ! unat i" if "i < n" "i \<notin> worklist st2" for i
    using P [OF that(1)] that(2) by simp
  ultimately show ?thesis
    using i b unfolding st2 by blast
qed

theorem BuildAliasTable_no_alias_full_mass_witness:
  "length [3 / 4, 3 / 4 :: real] = unat (2 :: TIndex) \<and> 0 \<le> (3 / 4 :: real) \<and>
   length [0, 0 :: real] = unat (2 :: TIndex) \<and> length [0, 0 :: TIndex] = unat (2 :: TIndex) \<and>
   (\<exists>st tP tA. init_state [3 / 4, 3 / 4 :: real] 2 [0, 0] [0, 0] = Inr st \<and>
     BuildAliasTable [3 / 4, 3 / 4 :: real] 2 [0, 0] [0, 0] = Inr (tP, tA) \<and>
     (\<forall>i<unat (2 :: TIndex). tA ! i = NOT 0 \<longrightarrow> tP ! i = 1) \<and>
     (\<forall>i\<in>worklist (main_loop st).
        unat i < unat (2 :: TIndex) \<and> tP ! unat i = 1 \<and> tA ! unat i = NOT 0) \<and>
     (\<forall>i<2. i \<notin> worklist (main_loop st) \<longrightarrow> tP ! unat i = tableProbs (main_loop st) ! unat i) \<and>
     tA = tableAliases (main_loop st))"
proof -
  have h1: "length [3 / 4, 3 / 4 :: real] = unat (2 :: TIndex)"
    and h2: "\<forall>p\<in>set [3 / 4, 3 / 4 :: real]. 0 \<le> p"
    and h3: "length [0, 0 :: real] = unat (2 :: TIndex)"
    and h4: "length [0, 0 :: TIndex] = unat (2 :: TIndex)"
    by simp_all
  have h0: "0 \<le> (3 / 4 :: real)"
    by simp
  show ?thesis
    by (rule conjI [OF h1 conjI [OF h0 conjI [OF h3 conjI [OF h4
          BuildAliasTable_no_alias_full_mass [OF h1 h2 h3 h4]]]]])
qed

text \<open>
  C4. For \<open>n\<close> up to \<open>2^31\<close> the claim holds (\<open>SampleAliasTable_in_range\<close> above): on a
  table built from a valid probability mass function and for \<open>0 \<le> u < 1\<close> the sampler
  returns an index below \<open>n\<close>, never the sentinel, computed as the claim says. Beyond
  \<open>2^31\<close> it fails. The uniform probability mass function over \<open>n = 4294967040\<close> outcomes
  satisfies the preconditions and builds to the table with every cutoff 1 and every alias
  the sentinel; at \<open>u = 0.75\<close> the product \<open>n * u = 3221225280\<close> is beyond the range of
  \<^verbatim>\<open>int\<close>, the conversion of line 77 is undefined and no index is returned.
\<close>

theorem SampleAliasTable_large_table:
  "1 \<le> (4294967040 :: TIndex) \<and>
   length (replicate 4294967040 (1 / 4294967040 :: real)) = unat (4294967040 :: TIndex) \<and>
   0 \<le> (1 / 4294967040 :: real) \<and>
   sum_list (replicate 4294967040 (1 / 4294967040 :: real)) = 1 \<and>
   BuildAliasTable (replicate 4294967040 (1 / 4294967040 :: real)) 4294967040
     (replicate 4294967040 0) (replicate 4294967040 0) =
     Inr (replicate 4294967040 1, replicate 4294967040 (NOT 0)) \<and>
   SampleAliasTable (3 / 4 :: real) (replicate 4294967040 1) (replicate 4294967040 (NOT 0)) 4294967040
     = Inl IntConversionOverflow"
proof (intro conjI)
  have n: "1 \<le> (4294967040 :: TIndex)" and u: "unat (4294967040 :: TIndex) = 4294967040"
    by simp_all
  show "1 \<le> (4294967040 :: TIndex)"
    by (rule n)
  show "length (replicate 4294967040 (1 / 4294967040 :: real)) = unat (4294967040 :: TIndex)"
    by (simp only: length_replicate u)
  show "0 \<le> (1 / 4294967040 :: real)"
    by simp
  from valid_pmf_uniform [OF n, where 'a = real]
  show "sum_list (replicate 4294967040 (1 / 4294967040 :: real)) = 1"
    by (simp only: valid_pmf_def u of_nat_numeral)
  have "length (replicate 4294967040 (0 :: real)) = unat (4294967040 :: TIndex)"
    "length (replicate 4294967040 (0 :: TIndex)) = unat (4294967040 :: TIndex)"
    by (simp_all only: length_replicate u)
  from BuildAliasTable_uniform [OF n this]
  show "BuildAliasTable (replicate 4294967040 (1 / 4294967040 :: real)) 4294967040
     (replicate 4294967040 0) (replicate 4294967040 0) =
     Inr (replicate 4294967040 1, replicate 4294967040 (NOT 0))"
    by (simp only: u of_nat_numeral)
  show "SampleAliasTable (3 / 4 :: real) (replicate 4294967040 1) (replicate 4294967040 (NOT 0))
      4294967040 = Inl IntConversionOverflow"
    by (simp add: sample_eval)
qed

text \<open>
  C5. The skewed scenario: for \<open>probabilities = [0.1, 0.9]\<close> and \<open>n = 2\<close>, whatever the
  output buffers hold, the first loop scales to \<open>[0.2, 1.8]\<close> with index 0 in \<open>small\<close> and
  index 1 in \<open>large\<close>, the main loop runs once, and the build returns
  \<open>tableProbs = [0.2, 1]\<close>, \<open>tableAliases = [1, NOT 0]\<close>. On that table the sampler
  returns 0 at \<open>u = 0.05\<close> (slot 0), 1 at \<open>u = 0.4\<close> (slot 0, the alias) and 1 at
  \<open>u = 0.9\<close> (slot 1).
\<close>

theorem skewed_two_outcome_scenario:
  "init_state [1 / 10, 9 / 10 :: real] 2 [a, b] [c, d] =
     Inr \<lparr>tableProbs = [1 / 5, 9 / 5], tableAliases = [NOT 0, NOT 0], small = [0], large = [1]\<rparr> \<and>
   main_loop_iterations
     \<lparr>tableProbs = [1 / 5, 9 / 5 :: real], tableAliases = [NOT 0, NOT 0], small = [0], large = [1]\<rparr> = 1 \<and>
   BuildAliasTable [1 / 10, 9 / 10 :: real] 2 [a, b] [c, d] = Inr ([1 / 5, 1], [1, NOT 0]) \<and>
   SampleAliasTable_slot (5 / 100 :: real) 2 = Inr 0 \<and>
   SampleAliasTable (5 / 100 :: real) [1 / 5, 1] [1, NOT 0] 2 = Inr 0 \<and>
   SampleAliasTable_slot (4 / 10 :: real) 2 = Inr 0 \<and>
   SampleAliasTable (4 / 10 :: real) [1 / 5, 1] [1, NOT 0] 2 = Inr 1 \<and>
   SampleAliasTable_slot (9 / 10 :: real) 2 = Inr 1 \<and>
   SampleAliasTable (9 / 10 :: real) [1 / 5, 1] [1, NOT 0] 2 = Inr 1"
proof (intro conjI)
  show "init_state [1 / 10, 9 / 10 :: real] 2 [a, b] [c, d] =
     Inr \<lparr>tableProbs = [1 / 5, 9 / 5], tableAliases = [NOT 0, NOT 0], small = [0], large = [1]\<rparr>"
    by (simp add: build_eval)
  show "main_loop_iterations
     \<lparr>tableProbs = [1 / 5, 9 / 5 :: real], tableAliases = [NOT 0, NOT 0], small = [0], large = [1]\<rparr> = 1"
    by (simp add: main_loop_iterations.simps main_body_def Let_def)
  show "BuildAliasTable [1 / 10, 9 / 10 :: real] 2 [a, b] [c, d] = Inr ([1 / 5, 1], [1, NOT 0])"
    by (simp add: build_eval)
qed (simp_all add: sample_eval)

text \<open>
  C6. The boundary \<open>n = 1\<close>: for \<open>probabilities = [1]\<close> the build returns
  \<open>tableProbs = [1]\<close> and \<open>tableAliases = [NOT 0]\<close>, and on that table the sampler returns
  index 0 for every \<open>u\<close> with \<open>0 \<le> u < 1\<close>.
\<close>

theorem single_outcome_boundary:
  assumes "0 \<le> u" and "u < 1"
  shows "BuildAliasTable [1 :: real] 1 [a] [c] = Inr ([1], [NOT 0]) \<and>
    SampleAliasTable u [1] [NOT 0] 1 = Inr 0"
proof
  show "BuildAliasTable [1 :: real] 1 [a] [c] = Inr ([1], [NOT 0])"
    by (simp add: build_eval)
  from assms have "\<lfloor>u\<rfloor> = 0"
    by (simp add: floor_eq_iff)
  with assms show "SampleAliasTable u [1] [NOT 0] 1 = Inr 0"
    by (simp add: sample_eval)
qed

theorem single_outcome_boundary_witness:
  "0 \<le> (1 / 2 :: real) \<and> (1 / 2 :: real) < 1 \<and>
   (BuildAliasTable [1 :: real] 1 [0] [0] = Inr ([1], [NOT 0]) \<and>
    SampleAliasTable (1 / 2 :: real) [1] [NOT 0] 1 = Inr 0)"
proof -
  have h1: "0 \<le> (1 / 2 :: real)" and h2: "(1 / 2 :: real) < 1"
    by simp_all
  show ?thesis
    by (rule conjI [OF h1 conjI [OF h2 single_outcome_boundary [OF h1 h2, where a = 0 and c = 0]]])
qed

text \<open>
  C7, as amended. With arithmetic that does not round (\<^verbatim>\<open>T\<close> an ordered field) and \<open>n\<close>
  at least 1, the test \<open>y < Ui\<close> of the function, with \<open>y = n * u - i\<close>, and the test
  \<open>u < (Ui + i) / n\<close> of the square-histogram variant decide alike for every \<open>u\<close>, every
  slot \<open>i\<close> and every cutoff \<open>Ui\<close>, and the two samplers return the same result on every
  input.
\<close>

theorem square_histogram_equivalent:
  assumes "1 \<le> n"
  shows "(of_nat (unat n) * u - of_nat (unat (i :: TIndex)) < Ui \<longleftrightarrow>
           u < (Ui + of_nat (unat i)) / (of_nat (unat n) :: 'a::floor_ceiling)) \<and>
    SampleAliasTable_square_histogram u tP tA n = SampleAliasTable u tP tA n"
proof -
  from assms have "0 < unat n"
    by (simp add: word_le_nat_alt)
  then have pos: "(0 :: 'a) < of_nat (unat n)"
    by (simp only: of_nat_0_less_iff)
  have test: "of_nat (unat n) * u - of_nat (unat j) < U \<longleftrightarrow>
      u < (U + of_nat (unat j)) / (of_nat (unat n) :: 'a)" for j :: TIndex and U :: 'a
    using pos by (simp only: pos_less_divide_eq) (auto simp: algebra_simps)
  show ?thesis
  proof
    show "of_nat (unat n) * u - of_nat (unat i) < Ui \<longleftrightarrow>
        u < (Ui + of_nat (unat i)) / (of_nat (unat n) :: 'a)"
      by (rule test)
    show "SampleAliasTable_square_histogram u tP tA n = SampleAliasTable u tP tA n"
      unfolding SampleAliasTable_square_histogram_def SampleAliasTable_def Let_def
      by (simp only: test split: sum.split)
  qed
qed

theorem square_histogram_equivalent_witness:
  "1 \<le> (2 :: TIndex) \<and>
   ((of_nat (unat (2 :: TIndex)) * (4 / 10) - of_nat (unat (0 :: TIndex)) < (1 / 5 :: real) \<longleftrightarrow>
       4 / 10 < (1 / 5 + of_nat (unat (0 :: TIndex))) / (of_nat (unat (2 :: TIndex)) :: real)) \<and>
    SampleAliasTable_square_histogram (4 / 10 :: real) [1 / 5, 1] [1, NOT 0] 2 =
      SampleAliasTable (4 / 10 :: real) [1 / 5, 1] [1, NOT 0] 2)"
proof -
  have h: "1 \<le> (2 :: TIndex)"
    by simp
  show ?thesis
    by (rule conjI [OF h square_histogram_equivalent [OF h]])
qed

text \<open>
  C7 as stated fails at \<^verbatim>\<open>T = float\<close>, the default. The weights \<open>0.6f\<close> and \<open>0.4f\<close>
  (binary32 numbers whose rounded sum is 1) build to \<open>tableProbs = [1, 0.8f]\<close> and
  \<open>tableAliases = [NOT 0, 0]\<close>. At \<open>u = 0.89999998f\<close> both samplers compute slot 1; the
  function has \<open>y = 0.79999995f < 0.8f\<close> and returns 1, the variant rounds
  \<open>(0.8f + 1) / 2\<close> to \<open>u\<close> itself, so \<open>u < Vi\<close> is false and it returns the alias 0.
\<close>

theorem square_histogram_differs_at_float:
  "binary32 (10066330 / 16777216 :: real) = 10066330 / 16777216 \<and>
   binary32 (13421773 / 33554432 :: real) = 13421773 / 33554432 \<and>
   binary32 (10066330 / 16777216 + 13421773 / 33554432 :: real) = 1 \<and>
   BuildAliasTable_rounded binary32 [10066330 / 16777216, 13421773 / 33554432 :: real] 2 [0, 0] [0, 0] =
     Inr ([1, 13421773 / 16777216], [NOT 0, 0]) \<and>
   binary32 (15099494 / 16777216 :: real) = 15099494 / 16777216 \<and>
   0 \<le> (15099494 / 16777216 :: real) \<and> (15099494 / 16777216 :: real) < 1 \<and>
   SampleAliasTable_rounded binary32 (15099494 / 16777216 :: real)
     [1, 13421773 / 16777216] [NOT 0, 0] 2 = Inr 1 \<and>
   SampleAliasTable_square_histogram_rounded binary32 (15099494 / 16777216 :: real)
     [1, 13421773 / 16777216] [NOT 0, 0] 2 = Inr 0"
proof (intro conjI)
  show "BuildAliasTable_rounded binary32 [10066330 / 16777216, 13421773 / 33554432 :: real] 2
      [0, 0] [0, 0] = Inr ([1, 13421773 / 16777216], [NOT 0, 0])"
    by (simp add: build_rounded_eval binary32_eval)
  show "SampleAliasTable_rounded binary32 (15099494 / 16777216 :: real)
      [1, 13421773 / 16777216] [NOT 0, 0] 2 = Inr 1"
    by (simp add: sample_rounded_eval binary32_eval)
  show "SampleAliasTable_square_histogram_rounded binary32 (15099494 / 16777216 :: real)
      [1, 13421773 / 16777216] [NOT 0, 0] 2 = Inr 0"
    by (simp add: sample_rounded_eval binary32_eval)
qed (simp_all add: binary32_eval)

text \<open>
  C8. For every input with \<open>n \<ge> 1\<close> and arrays of size \<open>n\<close> the build returns. With
  \<open>st\<close> the state after the first loop, the main loop is the body run
  \<open>main_loop_iterations st\<close> times, and that number is at most \<open>n\<close>. Before each of these
  runs both worklists are non-empty; the run makes the total number of worklist entries
  smaller; and the index popped from \<open>small\<close> is in neither worklist after any later run.
\<close>

theorem BuildAliasTable_terminates:
  assumes "1 \<le> n" and "length probabilities = unat n" and "length outProbs = unat n"
    and "length outAliases = unat n"
  shows "\<exists>st. init_state probabilities n outProbs outAliases = Inr st \<and>
     (\<exists>tP tA. BuildAliasTable probabilities n outProbs outAliases = Inr (tP, tA)) \<and>
     main_loop st = (main_body ^^ main_loop_iterations st) st \<and>
     main_loop_iterations st \<le> unat n \<and>
     (\<forall>k<main_loop_iterations st.
        small ((main_body ^^ k) st) \<noteq> [] \<and> large ((main_body ^^ k) st) \<noteq> [] \<and>
        length (small ((main_body ^^ Suc k) st)) + length (large ((main_body ^^ Suc k) st))
          < length (small ((main_body ^^ k) st)) + length (large ((main_body ^^ k) st)) \<and>
        (\<forall>j. k < j \<and> j \<le> main_loop_iterations st \<longrightarrow>
           heap_top (small ((main_body ^^ k) st)) \<notin> worklist ((main_body ^^ j) st)))"
proof -
  from assms(2-4) obtain st :: "'a build_state" where
    i: "init_state probabilities n outProbs outAliases = Inr st"
    and "init_inv probabilities n n st"
    using init_state_inv by blast
  then have inv: "worklists_inv n st" and total: "length (small st) + length (large st) = unat n"
    using init_inv_worklists by blast+
  have b: "\<exists>tP tA. BuildAliasTable probabilities n outProbs outAliases = Inr (tP, tA)"
    by (simp add: BuildAliasTable_def i Let_def)
  have le: "main_loop_iterations st \<le> unat n"
    using main_loop_iterations_le [of st] total by simp
  have step: "small ((main_body ^^ k) st) \<noteq> [] \<and> large ((main_body ^^ k) st) \<noteq> [] \<and>
        length (small ((main_body ^^ Suc k) st)) + length (large ((main_body ^^ Suc k) st))
          < length (small ((main_body ^^ k) st)) + length (large ((main_body ^^ k) st)) \<and>
        (\<forall>j. k < j \<and> j \<le> main_loop_iterations st \<longrightarrow>
           heap_top (small ((main_body ^^ k) st)) \<notin> worklist ((main_body ^^ j) st))"
    if k: "k < main_loop_iterations st" for k
  proof -
    let ?sk = "(main_body ^^ k) st"
    from k have it: "main_loop_iterations ?sk = main_loop_iterations st - k"
      by (simp add: main_loop_iterations_funpow)
    with k have "0 < main_loop_iterations ?sk"
      by simp
    then have ne: "small ?sk \<noteq> []" "large ?sk \<noteq> []"
      by (simp_all add: main_loop_iterations_pos)
    from inv k have invk: "worklists_inv n ?sk"
      by (simp add: funpow_worklists)
    note mb = main_body_worklists [OF invk ne]
    from ne it have it': "main_loop_iterations (main_body ?sk) = main_loop_iterations st - Suc k"
      by (subst (asm) main_loop_iterations.simps) simp
    have "heap_top (small ?sk) \<notin> worklist ((main_body ^^ j) st)"
      if j: "k < j" "j \<le> main_loop_iterations st" for j
    proof -
      define d where "d = j - Suc k"
      with j have "j = d + Suc k"
        by simp
      then have "(main_body ^^ j) st = (main_body ^^ d) (main_body ?sk)"
        by (simp only: funpow_add o_apply funpow.simps)
      then have "(main_body ^^ j) st = (main_body ^^ (j - Suc k)) (main_body ?sk)"
        by (simp only: d_def)
      moreover from j it' have "j - Suc k \<le> main_loop_iterations (main_body ?sk)"
        by simp
      ultimately have "worklist ((main_body ^^ j) st) \<subseteq> worklist (main_body ?sk)"
        using funpow_worklists [OF mb(1)] by simp
      with mb(2) show ?thesis
        by auto
    qed
    with ne main_body_length [OF ne] show ?thesis
      by simp
  qed
  from i b le step main_loop_funpow [of st] show ?thesis
    by blast
qed

theorem BuildAliasTable_terminates_witness:
  "1 \<le> (2 :: TIndex) \<and> length [1 / 10, 9 / 10 :: real] = unat (2 :: TIndex) \<and>
   length [0, 0 :: real] = unat (2 :: TIndex) \<and> length [0, 0 :: TIndex] = unat (2 :: TIndex) \<and>
   (\<exists>st. init_state [1 / 10, 9 / 10 :: real] 2 [0, 0] [0, 0] = Inr st \<and>
     (\<exists>tP tA. BuildAliasTable [1 / 10, 9 / 10 :: real] 2 [0, 0] [0, 0] = Inr (tP, tA)) \<and>
     main_loop st = (main_body ^^ main_loop_iterations st) st \<and>
     main_loop_iterations st \<le> unat (2 :: TIndex) \<and>
     (\<forall>k<main_loop_iterations st.
        small ((main_body ^^ k) st) \<noteq> [] \<and> large ((main_body ^^ k) st) \<noteq> [] \<and>
        length (small ((main_body ^^ Suc k) st)) + length (large ((main_body ^^ Suc k) st))
          < length (small ((main_body ^^ k) st)) + length (large ((main_body ^^ k) st)) \<and>
        (\<forall>j. k < j \<and> j \<le> main_loop_iterations st \<longrightarrow>
           heap_top (small ((main_body ^^ k) st)) \<notin> worklist ((main_body ^^ j) st))))"
proof -
  have h1: "1 \<le> (2 :: TIndex)" and h2: "length [1 / 10, 9 / 10 :: real] = unat (2 :: TIndex)"
    and h3: "length [0, 0 :: real] = unat (2 :: TIndex)"
    and h4: "length [0, 0 :: TIndex] = unat (2 :: TIndex)"
    by simp_all
  show ?thesis
    by (rule conjI [OF h1 conjI [OF h2 conjI [OF h3 conjI [OF h4
          BuildAliasTable_terminates [OF h1 h2 h3 h4]]]]])
qed

text \<open>
  C9. After a successful build on a probability mass function that satisfies the
  preconditions, an entry of \<open>tableAliases\<close> that is not the sentinel has an entry below
  1 in \<open>tableProbs\<close>.
\<close>

theorem BuildAliasTable_alias_below_one:
  assumes "valid_pmf probabilities n" and "length outProbs = unat n"
    and "length outAliases = unat n"
  shows "\<exists>tP tA. BuildAliasTable probabilities n outProbs outAliases = Inr (tP, tA) \<and>
     (\<forall>i<unat n. tA ! i \<noteq> NOT 0 \<longrightarrow> tP ! i < 1)"
proof -
  from assms(1) have pmf: "length probabilities = unat n" "\<forall>p\<in>set probabilities. 0 \<le> p"
    by (simp_all add: valid_pmf_def)
  obtain st :: "'a build_state" and tP tA where
    b: "BuildAliasTable probabilities n outProbs outAliases = Inr (tP, tA)"
    and t: "\<forall>i<n. 0 \<le> tP ! unat i \<and> tP ! unat i \<le> 1 \<and>
        (if i \<in> worklist (main_loop st) then tA ! unat i = NOT 0 \<and> tP ! unat i = 1
         else tA ! unat i < n \<and> tA ! unat i \<noteq> NOT 0 \<and> tP ! unat i < 1)"
    using BuildAliasTable_table [OF pmf(1) assms(2,3) pmf(2)] by blast
  have "tP ! k < 1" if "k < unat n" "tA ! k \<noteq> NOT 0" for k
  proof -
    from that obtain i where "i < n" "unat i = k"
      using nat_index by blast
    with t [rule_format, of i] that show ?thesis
      by (auto split: if_splits)
  qed
  with b show ?thesis
    by blast
qed

theorem BuildAliasTable_alias_below_one_witness:
  "valid_pmf [1 / 10, 9 / 10 :: real] 2 \<and> length [0, 0 :: real] = unat (2 :: TIndex) \<and>
   length [0, 0 :: TIndex] = unat (2 :: TIndex) \<and>
   (\<exists>tP tA. BuildAliasTable [1 / 10, 9 / 10 :: real] 2 [0, 0] [0, 0] = Inr (tP, tA) \<and>
     (\<forall>i<unat (2 :: TIndex). tA ! i \<noteq> NOT 0 \<longrightarrow> tP ! i < 1))"
proof -
  have h: "valid_pmf [1 / 10, 9 / 10 :: real] 2"
    by (simp add: valid_pmf_def)
  have l1: "length [0, 0 :: real] = unat (2 :: TIndex)"
    and l2: "length [0, 0 :: TIndex] = unat (2 :: TIndex)"
    by simp_all
  show ?thesis
    by (rule conjI [OF h conjI [OF l1 conjI [OF l2 BuildAliasTable_alias_below_one [OF h l1 l2]]]])
qed

text \<open>
  C10. For every \<open>u\<close>, every \<open>n \<ge> 1\<close> and tables of size \<open>n\<close>: the sampler never ends in
  the error \<open>OutOfBounds\<close>, and a slot computed at lines 76 and 77 is at most \<open>n - 1\<close>, so
  that both reads are within the tables. Line 77 turns every \<^verbatim>\<open>int\<close> into such a slot,
  whatever the conversion of \<open>n * u\<close> to \<^verbatim>\<open>int\<close> has given, and so the same holds of the
  sampler with rounded arithmetic, for every rounding. (Where that conversion is undefined
  the model ends in \<open>IntConversionOverflow\<close>, which is no indexing error:
  \<open>SampleAliasTable_slot_example\<close>.)
\<close>

theorem SampleAliasTable_slot_clamped:
  assumes "1 \<le> n" and "length tP = unat n" and "length tA = unat n"
  shows "SampleAliasTable u tP tA n \<noteq> Inl OutOfBounds \<and>
    (\<forall>i. SampleAliasTable_slot u n = Inr i \<longrightarrow>
       i \<le> n - 1 \<and> unat i < length tP \<and> unat i < length tA) \<and>
    (\<forall>c. (if (word_of_int c :: TIndex) < n then word_of_int c else n - 1) \<le> n - 1) \<and>
    SampleAliasTable_rounded rnd u tP tA n \<noteq> Inl OutOfBounds"
proof (intro conjI allI impI)
  fix i assume s: "SampleAliasTable_slot u n = Inr i"
  from SampleAliasTable_slot_cases [OF assms(1) s] assms(2,3)
  show "i \<le> n - 1" "unat i < length tP" "unat i < length tA"
    by simp_all
next
  show "SampleAliasTable u tP tA n \<noteq> Inl OutOfBounds"
  proof (cases "SampleAliasTable_slot u n")
    case (Inl e)
    then have "e = IntConversionOverflow"
      by (auto simp: SampleAliasTable_slot_def Let_def split: option.splits)
    with Inl show ?thesis
      by (simp add: SampleAliasTable_def Let_def)
  next
    case (Inr i)
    from SampleAliasTable_slot_cases(3) [OF assms(1) Inr] assms(2,3) Inr show ?thesis
      by (simp add: SampleAliasTable_def Let_def del: of_nat_unat)
  qed
next
  fix c :: int
  from assms(1) have n: "0 < unat n" "unat (n - 1) = unat n - 1"
    by (simp_all add: word_le_nat_alt unat_minus_1)
  then show "(if (word_of_int c :: TIndex) < n then word_of_int c else n - 1) \<le> n - 1"
    by (auto simp: word_less_nat_alt word_le_nat_alt)
next
  show "SampleAliasTable_rounded rnd u tP tA n \<noteq> Inl OutOfBounds"
  proof (cases "SampleAliasTable_slot_rounded rnd u n")
    case (Inl e)
    then have "e = IntConversionOverflow"
      by (auto simp: SampleAliasTable_slot_rounded_def Let_def split: option.splits)
    with Inl show ?thesis
      by (simp add: SampleAliasTable_rounded_def Let_def)
  next
    case (Inr i)
    from SampleAliasTable_slot_rounded_cases [OF assms(1) Inr] assms(2,3) Inr show ?thesis
      by (simp add: SampleAliasTable_rounded_def Let_def del: of_nat_unat)
  qed
qed

theorem SampleAliasTable_slot_clamped_witness:
  "1 \<le> (2 :: TIndex) \<and> length [1 / 5, 1 :: real] = unat (2 :: TIndex) \<and>
   length [1, NOT 0 :: TIndex] = unat (2 :: TIndex) \<and>
   SampleAliasTable (2 :: real) [1 / 5, 1] [1, NOT 0] 2 \<noteq> Inl OutOfBounds \<and>
   SampleAliasTable_slot (2 :: real) 2 = Inr 1 \<and>
   ((1 :: TIndex) \<le> 2 - 1 \<and> unat (1 :: TIndex) < length [1 / 5, 1 :: real] \<and>
    unat (1 :: TIndex) < length [1, NOT 0 :: TIndex]) \<and>
   (if (word_of_int 5 :: TIndex) < 2 then word_of_int 5 else 2 - 1) \<le> (2 :: TIndex) - 1 \<and>
   SampleAliasTable_rounded binary32 (2 :: real) [1 / 5, 1] [1, NOT 0] 2 \<noteq> Inl OutOfBounds"
proof -
  have h1: "1 \<le> (2 :: TIndex)" and h2: "length [1 / 5, 1 :: real] = unat (2 :: TIndex)"
    and h3: "length [1, NOT 0 :: TIndex] = unat (2 :: TIndex)"
    by simp_all
  have s: "SampleAliasTable_slot (2 :: real) 2 = Inr 1"
    by (simp add: sample_eval)
  note t = SampleAliasTable_slot_clamped [OF h1 h2 h3, of 2 binary32]
  note t1 = t [THEN conjunct1]
  note t2 = t [THEN conjunct2, THEN conjunct1, rule_format, OF s]
  note t3 = t [THEN conjunct2, THEN conjunct2, THEN conjunct1, rule_format, of 5]
  note t4 = t [THEN conjunct2, THEN conjunct2, THEN conjunct2]
  show ?thesis
    by (rule conjI [OF h1 conjI [OF h2 conjI [OF h3 conjI [OF t1 conjI [OF s conjI [OF t2
          conjI [OF t3 t4]]]]]]])
qed

end
